theory Spec2Isabelle
  imports Main
begin

section \<open>Data model\<close>

text \<open>
  The film objects built in \<^verbatim>\<open>pages/api/fetch-list.js\<close> (by the feed extractor and by the
  page scraper) have the four fields \<^verbatim>\<open>title\<close>, \<^verbatim>\<open>year\<close>, \<^verbatim>\<open>slug\<close> and \<^verbatim>\<open>letterboxdUrl\<close>,
  all of them strings.
\<close>

record film =
  title :: string
  year :: string
  slug :: string
  letterboxdUrl :: string

section \<open>Deduplication: \<^verbatim>\<open>dedupeFilms\<close>\<close>

text \<open>
  \<^verbatim>\<open>
  function dedupeFilms(films) {
    const seen = new Set();
    return films.filter((film) => {
      if (seen.has(film.slug)) { return false; }
      seen.add(film.slug);
      return true;
    });
  }
  \<close>
  The callback of \<^verbatim>\<open>filter\<close> mutates the set \<^verbatim>\<open>seen\<close>; the model threads it through the
  traversal of the array.
\<close>

fun dedupe_filter :: "string set \<Rightarrow> film list \<Rightarrow> film list" where
  "dedupe_filter seen [] = []"
| "dedupe_filter seen (f # fs) =
     (if slug f \<in> seen then dedupe_filter seen fs
      else f # dedupe_filter (insert (slug f) seen) fs)"

definition dedupeFilms :: "film list \<Rightarrow> film list" where
  "dedupeFilms fs = dedupe_filter {} fs"

section \<open>List identity: \<^verbatim>\<open>extractListPath\<close>\<close>

text \<open>
  \<^verbatim>\<open>
  function extractListPath(url) {
    const match = url.match(/letterboxd\.com\/([^/]+)\/list\/([^/]+)/);
    if (match) { return `/${match[1]}/list/${match[2]}`; }
    return null;
  }
  \<close>
  The regular expression has no flags: it is case-sensitive, unanchored, and \<^verbatim>\<open>match\<close> returns
  the leftmost match. At one start position the match is forced: after the literal
  \<^verbatim>\<open>letterboxd.com/\<close> the greedy group \<^verbatim>\<open>[^/]+\<close> takes the longest run of characters other
  than \<^verbatim>\<open>/\<close> (a shorter run would be followed by a character that is not the \<^verbatim>\<open>/\<close> the
  pattern needs next, so backtracking never helps), the literal \<^verbatim>\<open>/list/\<close> follows, and the
  second group takes the longest run again. \<open>literal\<close> consumes a fixed string, \<open>match_here\<close>
  is the attempt at one start position, \<open>regex_match\<close> tries the start positions from left
  to right and returns the two capture groups.
\<close>

fun literal :: "string \<Rightarrow> string \<Rightarrow> string option" where
  "literal [] s = Some s"
| "literal (c # cs) [] = None"
| "literal (c # cs) (d # ds) = (if c = d then literal cs ds else None)"

definition notSlash :: "char \<Rightarrow> bool" where
  "notSlash c \<longleftrightarrow> c \<noteq> CHR ''/''"

definition match_here :: "string \<Rightarrow> (string \<times> string) option" where
  "match_here s =
     (case literal ''letterboxd.com/'' s of
        None \<Rightarrow> None
      | Some s1 \<Rightarrow>
          let g1 = takeWhile notSlash s1 in
          if g1 = [] then None
          else (case literal ''/list/'' (dropWhile notSlash s1) of
                  None \<Rightarrow> None
                | Some s2 \<Rightarrow>
                    let g2 = takeWhile notSlash s2 in
                    if g2 = [] then None else Some (g1, g2)))"

fun regex_match :: "string \<Rightarrow> (string \<times> string) option" where
  "regex_match [] = match_here []"
| "regex_match (c # cs) =
     (case match_here (c # cs) of Some m \<Rightarrow> Some m | None \<Rightarrow> regex_match cs)"

definition extractListPath :: "string \<Rightarrow> string option" where
  "extractListPath url =
     (case regex_match url of
        Some (g1, g2) \<Rightarrow> Some (''/'' @ g1 @ ''/list/'' @ g2)
      | None \<Rightarrow> None)"

text \<open>
  The declarative reading of the pattern, against which the matcher is compared: a
  \<open>segment\<close> is a non-empty string without \<^verbatim>\<open>/\<close>, and the pattern occurs in \<open>s\<close> after the
  prefix \<open>pre\<close> when \<open>s\<close> continues with the domain literal, a segment, \<^verbatim>\<open>/list/\<close> and a
  second segment.
\<close>

definition segment :: "string \<Rightarrow> bool" where
  "segment g \<longleftrightarrow> g \<noteq> [] \<and> CHR ''/'' \<notin> set g"

definition occurrence :: "string \<Rightarrow> string \<Rightarrow> string \<Rightarrow> string \<Rightarrow> string \<Rightarrow> bool" where
  "occurrence s pre g1 g2 post \<longleftrightarrow>
     s = pre @ ''letterboxd.com/'' @ g1 @ ''/list/'' @ g2 @ post \<and> segment g1 \<and> segment g2"

section \<open>URL normalisation of the front end: \<^verbatim>\<open>normalizeUrl\<close>\<close>

text \<open>
  \<^verbatim>\<open>
  const normalizeUrl = (inputUrl) => {
    // Normalize URL for comparison (trim, remove trailing slashes, lowercase)
    return inputUrl.trim().replace(/\/+$/, '').toLowerCase();
  };
  \<close>
  in \<^verbatim>\<open>pages/index.js\<close>, where it computes the key of the page's cache; the request to the
  API carries the URL as typed. A character of \<^typ>\<open>string\<close> stands for a UTF-16 code unit
  below 256, so that the strings of the model are the JavaScript strings of the Latin-1
  range. In that range \<^verbatim>\<open>trim\<close> strips the white space and line terminators U+0009 to
  U+000D, U+0020 and U+00A0, and \<^verbatim>\<open>toLowerCase\<close> adds 32 to the capital letters: A to Z,
  and U+00C0 to U+00DE but for the multiplication sign U+00D7. The replacement removes the
  one match of \<^verbatim>\<open>/\/+$/\<close>, the whole run of slashes that ends the string.
\<close>

definition isWhiteSpace :: "char \<Rightarrow> bool" where
  "isWhiteSpace c \<longleftrightarrow>
     c \<in> {CHR 0x09, CHR 0x0A, CHR 0x0B, CHR 0x0C, CHR 0x0D, CHR 0x20, CHR 0xA0}"

definition trim :: "string \<Rightarrow> string" where
  "trim s = rev (dropWhile isWhiteSpace (rev (dropWhile isWhiteSpace s)))"

definition removeTrailingSlashes :: "string \<Rightarrow> string" where
  "removeTrailingSlashes s = rev (dropWhile (\<lambda>c. c = CHR ''/'') (rev s))"

definition isCapital :: "nat \<Rightarrow> bool" where
  "isCapital n \<longleftrightarrow> 65 \<le> n \<and> n \<le> 90 \<or> 192 \<le> n \<and> n \<le> 214 \<or> 216 \<le> n \<and> n \<le> 222"

definition lowerChar :: "char \<Rightarrow> char" where
  "lowerChar c =
     (if isCapital (of_char c) then char_of (of_char c + 32 :: nat) else c)"

definition toLowerCase :: "string \<Rightarrow> string" where
  "toLowerCase s = map lowerChar s"

definition normalizeUrl :: "string \<Rightarrow> string" where
  "normalizeUrl inputUrl = toLowerCase (removeTrailingSlashes (trim inputUrl))"

section \<open>Exceptions and responses\<close>

text \<open>
  A JavaScript exception is any value. The handler's \<^verbatim>\<open>catch\<close> distinguishes instances of
  \<^verbatim>\<open>Error\<close>, which carry a \<^verbatim>\<open>message\<close>, from every other thrown value. A function that may
  throw returns \<open>exn + 'a\<close>, with \<open>Inl\<close> for the exception.

  Of a \<^verbatim>\<open>fetch\<close> response the code reads the flag \<^verbatim>\<open>ok\<close> and the body (through
  \<^verbatim>\<open>response.text()\<close>).
\<close>

datatype exn = ErrorInstance string | NonError

record 'b response =
  ok :: bool
  body :: 'b

section \<open>Fetching with retries: \<^verbatim>\<open>fetchWithRetry\<close>\<close>

text \<open>
  \<^verbatim>\<open>
  async function fetchWithRetry(url, options, retries = 2) {
    for (let i = 0; i <= retries; i++) {
      try {
        const response = await fetch(url, options);
        if (response.ok) { return response; }
        if (i < retries) { await new Promise((r) => setTimeout(r, 500 * (i + 1))); }
      } catch (error) {
        if (i === retries) throw error;
        await new Promise((r) => setTimeout(r, 500 * (i + 1)));
      }
    }
    return null;
  }
  \<close>
  The network is the function \<open>fetch\<close>: attempt \<open>i\<close> of this call either rejects
  (\<open>Inl\<close>) or resolves with a response (\<open>Inr\<close>). The log counts the calls of \<^verbatim>\<open>fetch\<close> and
  records the delays slept, in milliseconds. Both callers use the default \<^verbatim>\<open>retries = 2\<close>.
\<close>

record net_log =
  attempts :: nat
  delays :: "nat list"

function fetchWithRetry_loop ::
  "(nat \<Rightarrow> exn + 'b response) \<Rightarrow> nat \<Rightarrow> nat \<Rightarrow> net_log \<Rightarrow>
     (exn + 'b response option) \<times> net_log"
where
  "fetchWithRetry_loop fetch retries i log =
     (if i \<le> retries then
        (let log1 = log\<lparr>attempts := attempts log + 1\<rparr> in
         case fetch i of
           Inr response \<Rightarrow>
             if ok response then (Inr (Some response), log1)
             else if i < retries
               then fetchWithRetry_loop fetch retries (i + 1)
                      (log1\<lparr>delays := delays log1 @ [500 * (i + 1)]\<rparr>)
               else fetchWithRetry_loop fetch retries (i + 1) log1
         | Inl error \<Rightarrow>
             if i = retries then (Inl error, log1)
             else fetchWithRetry_loop fetch retries (i + 1)
                    (log1\<lparr>delays := delays log1 @ [500 * (i + 1)]\<rparr>))
      else (Inr None, log))"
  by pat_completeness auto
termination
  by (relation "measure (\<lambda>(fetch, retries, i, log). Suc retries - i)") auto

definition fetchWithRetry ::
  "(nat \<Rightarrow> exn + 'b response) \<Rightarrow> (exn + 'b response option) \<times> net_log" where
  "fetchWithRetry fetch = fetchWithRetry_loop fetch 2 0 \<lparr>attempts = 0, delays = []\<rparr>"

text \<open>An attempt succeeds when it resolves with an \<^verbatim>\<open>ok\<close> response.\<close>

definition succeeds :: "exn + 'b response \<Rightarrow> bool" where
  "succeeds a = (case a of Inl error \<Rightarrow> False | Inr response \<Rightarrow> ok response)"

section \<open>The pagination walker: \<^verbatim>\<open>scrapeAllPages\<close>\<close>

text \<open>
  The HTML of a page is parsed by cheerio. Of the parsed document the walker reads:
  the \<^verbatim>\<open>li.posteritem\<close> elements, and of each the attributes \<^verbatim>\<open>data-item-slug\<close> and
  \<^verbatim>\<open>data-item-name\<close> of the \<^verbatim>\<open>div[data-item-slug]\<close> inside it (\<open>None\<close> when \<^verbatim>\<open>attr\<close> returns
  \<^verbatim>\<open>undefined\<close>); the number of \<^verbatim>\<open>a.next\<close> elements; the number of \<^verbatim>\<open>a[rel="next"]\<close> elements.
\<close>

record item =
  dataItemSlug :: "string option"
  dataItemName :: "string option"

record page =
  posterItems :: "item list"
  aNext :: nat
  aRelNext :: nat

text \<open>
  \<^verbatim>\<open>
  const pageUrl = page === 1
      ? `https://letterboxd.com${listPath}/`
      : `https://letterboxd.com${listPath}/page/${page}/`;
  \<close>
\<close>

fun decimal :: "nat \<Rightarrow> string" where
  "decimal n =
     (if n < 10 then [char_of (48 + n)]
      else decimal (n div 10) @ [char_of (48 + n mod 10)])"

declare decimal.simps [simp del]

definition pageUrl :: "string \<Rightarrow> nat \<Rightarrow> string" where
  "pageUrl listPath p =
     (if p = 1 then ''https://letterboxd.com'' @ listPath @ ''/''
      else ''https://letterboxd.com'' @ listPath @ ''/page/'' @ decimal p @ ''/'')"

text \<open>
  \<^verbatim>\<open>
  const slug = $reactComponent.attr('data-item-slug') || '';
  const title = $reactComponent.attr('data-item-name') || '';
  if (slug && title) {
    films.push({ title, year: '', slug, letterboxdUrl: `https://letterboxd.com/film/${slug}/` });
  }
  \<close>
\<close>

definition orEmpty :: "string option \<Rightarrow> string" where
  "orEmpty a = (case a of None \<Rightarrow> [] | Some v \<Rightarrow> v)"

definition scrapeItem :: "item \<Rightarrow> film list" where
  "scrapeItem el =
     (let slug = orEmpty (dataItemSlug el); title = orEmpty (dataItemName el) in
      if slug \<noteq> [] \<and> title \<noteq> []
      then [\<lparr>title = title, year = [], slug = slug,
              letterboxdUrl = ''https://letterboxd.com/film/'' @ slug @ ''/''\<rparr>]
      else [])"

text \<open>
  The variables of the loop, and the URLs passed to \<^verbatim>\<open>fetchWithRetry\<close> so far (the effect of
  the walker on the network). One pass through the loop body ends with \<^verbatim>\<open>break\<close> or at the
  loop test (at the end of the body, by \<^verbatim>\<open>continue\<close>, or after the \<^verbatim>\<open>catch\<close> block).
\<close>

record walk =
  films :: "film list"
  page :: nat
  hasMore :: bool
  consecutiveFailures :: nat
  requested :: "string list"

datatype 's flow = Break 's | Next 's

text \<open>
  The network seen by the walker: the call of \<^verbatim>\<open>fetchWithRetry\<close> number \<open>t\<close> (counted from
  0), for the URL \<open>u\<close>, has its attempts answered by \<open>net t u\<close>. The body of a response
  is what \<^verbatim>\<open>await response.text()\<close> followed by parsing gives: an exception when reading the
  body rejects, the parsed page otherwise.
\<close>

type_synonym network = "nat \<Rightarrow> string \<Rightarrow> nat \<Rightarrow> exn + (exn + page) response"

text \<open>
  Both failure paths, \<^verbatim>\<open>if (!response || !response.ok) { consecutiveFailures++;
  if (page === 1) break; continue; }\<close> and
  \<^verbatim>\<open>catch (error) { consecutiveFailures++; if (page === 1) break; }\<close>, do the same.
\<close>

definition fetchFailed :: "walk \<Rightarrow> walk flow" where
  "fetchFailed w =
     (let w1 = w\<lparr>consecutiveFailures := consecutiveFailures w + 1\<rparr> in
      if page w1 = 1 then Break w1 else Next w1)"

text \<open>
  \<^verbatim>\<open>
  if (filmElements.length === 0) { hasMore = false; break; }
  filmElements.each(...);
  const hasNextPage = $('a.next').length > 0 || $('a[rel="next"]').length > 0;
  if (!hasNextPage) { hasMore = false; } else { page++; }
  if (page > 50) { hasMore = false; }
  \<close>
\<close>

definition scrapePage :: "page \<Rightarrow> walk \<Rightarrow> walk flow" where
  "scrapePage doc w =
     (if length (posterItems doc) = 0 then Break (w\<lparr>hasMore := False\<rparr>)
      else
        let w1 = w\<lparr>films := films w @ concat (map scrapeItem (posterItems doc))\<rparr>;
            hasNextPage = (aNext doc > 0 \<or> aRelNext doc > 0);
            w2 = (if \<not> hasNextPage then w1\<lparr>hasMore := False\<rparr> else w1\<lparr>page := page w1 + 1\<rparr>);
            w3 = (if page w2 > 50 then w2\<lparr>hasMore := False\<rparr> else w2)
        in Next w3)"

text \<open>
  The body of the \<^verbatim>\<open>try\<close> block, given what \<^verbatim>\<open>fetchWithRetry\<close> did. The counter is reset
  (\<^verbatim>\<open>consecutiveFailures = 0; // Reset on success\<close>) before \<^verbatim>\<open>await response.text()\<close>, so an
  exception of the body read reaches the \<^verbatim>\<open>catch\<close> block with the counter at 0.
\<close>

definition iteration :: "(exn + (exn + page) response option) \<Rightarrow> walk \<Rightarrow> walk flow" where
  "iteration fetched w =
     (case fetched of
        Inl error \<Rightarrow> fetchFailed w
      | Inr None \<Rightarrow> fetchFailed w
      | Inr (Some response) \<Rightarrow>
          if \<not> ok response then fetchFailed w
          else
            let w1 = w\<lparr>consecutiveFailures := 0\<rparr> in
            (case body response of
               Inl error \<Rightarrow> fetchFailed w1
             | Inr doc \<Rightarrow> scrapePage doc w1))"

definition pageFetch :: "network \<Rightarrow> string \<Rightarrow> walk \<Rightarrow> exn + (exn + page) response option" where
  "pageFetch net listPath w =
     fst (fetchWithRetry (net (length (requested w)) (pageUrl listPath (page w))))"

text \<open>
  \<^verbatim>\<open>while (hasMore && consecutiveFailures < 2) { ... }\<close>. Nothing in the loop bounds the
  number of passes by itself, so the loop is a partial function: \<open>None\<close> is a walk that
  never returns.
\<close>

partial_function (option) scrape_loop :: "network \<Rightarrow> string \<Rightarrow> walk \<Rightarrow> walk option" where
  "scrape_loop net listPath w =
     (if hasMore w \<and> consecutiveFailures w < 2 then
        (case iteration (pageFetch net listPath w)
                (w\<lparr>requested := requested w @ [pageUrl listPath (page w)]\<rparr>) of
           Break w' \<Rightarrow> Some w'
         | Next w' \<Rightarrow> scrape_loop net listPath w')
      else Some w)"

definition scrapeAllPages :: "network \<Rightarrow> string \<Rightarrow> walk option" where
  "scrapeAllPages net listPath =
     scrape_loop net listPath
       \<lparr>films = [], page = 1, hasMore = True, consecutiveFailures = 0, requested = []\<rparr>"

text \<open>
  A call of \<^verbatim>\<open>fetchWithRetry\<close> fails for the walker when it throws, returns \<^verbatim>\<open>null\<close>, or
  returns a response that is not \<^verbatim>\<open>ok\<close>: the three ways to the increment of
  \<^verbatim>\<open>consecutiveFailures\<close> without the reset.
\<close>

definition fetchFails :: "(exn + 'b response option) \<Rightarrow> bool" where
  "fetchFails fetched =
     (case fetched of
        Inl error \<Rightarrow> True
      | Inr None \<Rightarrow> True
      | Inr (Some response) \<Rightarrow> \<not> ok response)"

section \<open>The orchestrator: \<^verbatim>\<open>handler\<close>\<close>

text \<open>
  The reply is \<^verbatim>\<open>res.status(n).json({ error: ... })\<close> or \<^verbatim>\<open>res.status(200).json({ films: ... })\<close>.
\<close>

datatype json = ErrorBody string | FilmsBody "film list"

record reply =
  status :: nat
  json :: json

text \<open>
  \<^verbatim>\<open>const { url } = req.query\<close>: the framework gives \<^verbatim>\<open>undefined\<close> when the request has no
  parameter \<^verbatim>\<open>url\<close> (\<open>None\<close>), a string when it has one, and an array of strings when the
  parameter is repeated (\<^verbatim>\<open>?url=a&url=b\<close>).
\<close>

datatype param = Str string | Arr "string list"

text \<open>
  The handler awaits \<^verbatim>\<open>Promise.all([tryRssFeed(listPath), scrapeAllPages(listPath)])\<close>. The
  promise of a stage is fulfilled with \<^verbatim>\<open>null\<close> or an array of films, or it never settles.
  It is never rejected: the whole body of \<^verbatim>\<open>tryRssFeed\<close> is a \<^verbatim>\<open>try\<close> block whose \<^verbatim>\<open>catch\<close>
  returns \<^verbatim>\<open>null\<close>, and in \<^verbatim>\<open>scrapeAllPages\<close> everything that can throw is inside the \<^verbatim>\<open>try\<close>
  block of the loop. So \<^verbatim>\<open>Promise.all\<close> is fulfilled when both stages are, and pending
  otherwise.

  The handler reaches the network through the two stages only; its effect is the list of
  the stage calls it made.
\<close>

datatype 'a promise = Pending | Fulfilled 'a

datatype call = TryRssFeed string | ScrapeAllPages string

type_synonym stage = "string \<Rightarrow> film list option promise"

definition promiseAll :: "'a promise \<Rightarrow> 'b promise \<Rightarrow> ('a \<times> 'b) promise" where
  "promiseAll a b =
     (case a of
        Pending \<Rightarrow> Pending
      | Fulfilled x \<Rightarrow> (case b of Pending \<Rightarrow> Pending | Fulfilled y \<Rightarrow> Fulfilled (x, y)))"

text \<open>
  The walker as a stage: \<^verbatim>\<open>scrapeAllPages\<close> returns the array \<^verbatim>\<open>films\<close> when its loop ends.
\<close>

definition scrapeStage :: "network \<Rightarrow> stage" where
  "scrapeStage net listPath =
     (case scrapeAllPages net listPath of
        None \<Rightarrow> Pending
      | Some w \<Rightarrow> Fulfilled (Some (films w)))"

text \<open>
  \<^verbatim>\<open>
  let films = [];
  if (scrapedFilms && scrapedFilms.length > 0) { films = scrapedFilms; }
  else if (rssFilms && rssFilms.length > 0) { films = rssFilms; }
  \<close>
\<close>

definition nonEmpty :: "film list option \<Rightarrow> bool" where
  "nonEmpty a = (case a of None \<Rightarrow> False | Some fs \<Rightarrow> length fs > 0)"

definition selectFilms :: "film list option \<Rightarrow> film list option \<Rightarrow> film list" where
  "selectFilms rssFilms scrapedFilms =
     (if nonEmpty scrapedFilms then the scrapedFilms
      else if nonEmpty rssFilms then the rssFilms
      else [])"

text \<open>
  The \<^verbatim>\<open>try\<close> block of the handler (lines 14 to 44). It starts with
  \<^verbatim>\<open>extractListPath(url)\<close>, that is \<^verbatim>\<open>url.match(...)\<close>: an array has no method \<^verbatim>\<open>match\<close>, and the
  call throws the \<^verbatim>\<open>TypeError\<close> with the message \<^verbatim>\<open>url.match is not a function\<close>. The block
  ends with an exception (\<open>Inl\<close>), with a reply, or it never ends (\<open>Inr None\<close>) because
  the awaited promise stays pending.
\<close>

definition matchTypeError :: exn where
  "matchTypeError = ErrorInstance ''url.match is not a function''"

definition tryBlock :: "stage \<Rightarrow> stage \<Rightarrow> param \<Rightarrow> (exn + reply option) \<times> call list" where
  "tryBlock rss scrape url =
     (case url of
        Arr xs \<Rightarrow> (Inl matchTypeError, [])
      | Str u \<Rightarrow>
          (case extractListPath u of
             None \<Rightarrow>
               (Inr (Some \<lparr>status = 400, json = ErrorBody ''Invalid Letterboxd list URL''\<rparr>), [])
           | Some listPath \<Rightarrow>
               (case promiseAll (rss listPath) (scrape listPath) of
                  Pending \<Rightarrow> (Inr None, [TryRssFeed listPath, ScrapeAllPages listPath])
                | Fulfilled (rssFilms, scrapedFilms) \<Rightarrow>
                    let uniqueFilms = dedupeFilms (selectFilms rssFilms scrapedFilms) in
                    if length uniqueFilms = 0 then
                      (Inr (Some \<lparr>status = 404,
                         json = ErrorBody
                           ''Could not fetch list. The list may be private or temporarily unavailable.''\<rparr>),
                       [TryRssFeed listPath, ScrapeAllPages listPath])
                    else
                      (Inr (Some \<lparr>status = 200, json = FilmsBody uniqueFilms\<rparr>),
                       [TryRssFeed listPath, ScrapeAllPages listPath]))))"

text \<open>
  \<^verbatim>\<open>
  catch (error) {
    const errorMessage = error instanceof Error ? error.message : 'Failed to fetch list';
    return res.status(500).json({ error: errorMessage });
  }
  \<close>
\<close>

definition catchReply :: "exn \<Rightarrow> reply" where
  "catchReply error =
     \<lparr>status = 500,
      json = ErrorBody (case error of
                          ErrorInstance message \<Rightarrow> message
                        | NonError \<Rightarrow> ''Failed to fetch list'')\<rparr>"

text \<open>
  \<^verbatim>\<open>if (!url) { return res.status(400).json({ error: 'URL is required' }); }\<close> holds for the
  absent parameter and for the empty string; every array is truthy. The result is the
  reply, or \<open>None\<close> when the handler never replies, and the stage calls made.
\<close>

definition handler :: "stage \<Rightarrow> stage \<Rightarrow> param option \<Rightarrow> reply option \<times> call list" where
  "handler rss scrape url =
     (if url = None \<or> url = Some (Str []) then
        (Some \<lparr>status = 400, json = ErrorBody ''URL is required''\<rparr>, [])
      else
        (case tryBlock rss scrape (the url) of
           (Inl error, calls) \<Rightarrow> (Some (catchReply error), calls)
         | (Inr replied, calls) \<Rightarrow> (replied, calls)))"

text \<open>
  Two notions for the analysis of the loop. A network has readable bodies when every \<^verbatim>\<open>ok\<close>
  response it gives can be read and parsed. The budget of a walk state bounds the number of
  passes still to come on such a network: a scraped page with a next link moves to the next
  of at most 50 pages, a failure uses up one of the two units left of the failure counter.
\<close>

definition readableBodies :: "network \<Rightarrow> bool" where
  "readableBodies net \<longleftrightarrow>
     (\<forall>t u i r. net t u i = Inr r \<and> ok r \<longrightarrow> (\<exists>doc. body r = Inr doc))"

definition loopBudget :: "walk \<Rightarrow> nat" where
  "loopBudget w =
     (if hasMore w \<and> consecutiveFailures w < 2
      then 1 + 2 * (51 - page w) + (2 - consecutiveFailures w) else 0)"

section \<open>Scenarios\<close>

text \<open>
  Concrete films, pages, networks and stages, on which the theorems below are evaluated.
  The list is \<^verbatim>\<open>https://letterboxd.com/alice/list/favorites/\<close>, the scenario of the
  specification.
\<close>

definition alien :: film where
  "alien = \<lparr>title = ''Alien'', year = [], slug = ''alien'',
             letterboxdUrl = ''https://letterboxd.com/film/alien/''\<rparr>"

definition heat :: film where
  "heat = \<lparr>title = ''Heat'', year = [], slug = ''heat'',
            letterboxdUrl = ''https://letterboxd.com/film/heat/''\<rparr>"

definition feedAlien :: film where
  "feedAlien = \<lparr>title = ''Alien (1979)'', year = ''1979'', slug = ''alien'',
                 letterboxdUrl = ''https://letterboxd.com/film/alien/''\<rparr>"

definition feedRan :: film where
  "feedRan = \<lparr>title = ''Ran (1985)'', year = ''1985'', slug = ''ran'',
               letterboxdUrl = ''https://letterboxd.com/film/ran/''\<rparr>"

definition favorites :: string where
  "favorites = ''https://letterboxd.com/alice/list/favorites/''"

text \<open>
  A first page with one film and a next link, a last page with one film and no next link,
  and the crafted page without any list item but with both next links.
\<close>

definition firstPage :: page where
  "firstPage =
     \<lparr>posterItems = [\<lparr>dataItemSlug = Some ''alien'', dataItemName = Some ''Alien''\<rparr>],
      aNext = 1, aRelNext = 0\<rparr>"

definition lastPage :: page where
  "lastPage =
     \<lparr>posterItems = [\<lparr>dataItemSlug = Some ''heat'', dataItemName = Some ''Heat''\<rparr>],
      aNext = 0, aRelNext = 0\<rparr>"

definition emptyPageWithNext :: page where
  "emptyPageWithNext = \<lparr>posterItems = [], aNext = 1, aRelNext = 1\<rparr>"

definition served :: "page \<Rightarrow> exn + (exn + page) response" where
  "served doc = Inr \<lparr>ok = True, body = Inr doc\<rparr>"

definition unavailable :: "exn + (exn + page) response" where
  "unavailable = Inr \<lparr>ok = False, body = Inr \<lparr>posterItems = [], aNext = 0, aRelNext = 0\<rparr>\<rparr>"

definition truncated :: "exn + (exn + page) response" where
  "truncated = Inr \<lparr>ok = True, body = Inl (ErrorInstance ''terminated'')\<rparr>"

text \<open>
  Four networks. All serve the first page to the first call of \<^verbatim>\<open>fetchWithRetry\<close>. Then:
  \<open>craftedNet\<close> serves the crafted empty page; \<open>downNet\<close> answers every attempt with a
  status that is not a success; \<open>hiccupNet\<close> does so during one call and serves the last
  page afterwards; \<open>stuckNet\<close> answers every attempt with an \<^verbatim>\<open>ok\<close> response whose body
  cannot be read.
\<close>

definition craftedNet :: network where
  "craftedNet t u i = (if t = 0 then served firstPage else served emptyPageWithNext)"

definition downNet :: network where
  "downNet t u i = (if t = 0 then served firstPage else unavailable)"

definition hiccupNet :: network where
  "hiccupNet t u i =
     (if t = 0 then served firstPage else if t = 1 then unavailable else served lastPage)"

definition stuckNet :: network where
  "stuckNet t u i = (if t = 0 then served firstPage else truncated)"

text \<open>
  Two more networks, on which page loads fail at the read of the body. After the first
  page, \<open>unreadableTwiceNet\<close> answers two calls in a row with an \<^verbatim>\<open>ok\<close> response whose body
  cannot be read and serves the last page afterwards; \<open>unreadableThenDownNet\<close> answers one
  call in that way and then every attempt with a status that is not a success.
\<close>

definition unreadableTwiceNet :: network where
  "unreadableTwiceNet t u i =
     (if t = 0 then served firstPage else if t = 1 \<or> t = 2 then truncated else served lastPage)"

definition unreadableThenDownNet :: network where
  "unreadableThenDownNet t u i =
     (if t = 0 then served firstPage else if t = 1 then truncated else unavailable)"

text \<open>The walk after the first page has been scraped.\<close>

definition afterFirstPage :: walk where
  "afterFirstPage =
     \<lparr>films = [alien], page = 2, hasMore = True, consecutiveFailures = 0,
      requested = [''https://letterboxd.com/alice/list/favorites/'']\<rparr>"

text \<open>
  Three attempts of the network for one call of \<^verbatim>\<open>fetchWithRetry\<close>: an exception and a
  status 503 before a success; three times a status 503; a status 503 and then two
  exceptions.
\<close>

definition flaky :: "nat \<Rightarrow> exn + string response" where
  "flaky i =
     (if i = 0 then Inl (ErrorInstance ''fetch failed'')
      else if i = 1 then Inr \<lparr>ok = False, body = ''Service Unavailable''\<rparr>
      else Inr \<lparr>ok = True, body = ''<html>''\<rparr>)"

definition refusing :: "nat \<Rightarrow> exn + string response" where
  "refusing i = Inr \<lparr>ok = False, body = ''Service Unavailable''\<rparr>"

definition dropping :: "nat \<Rightarrow> exn + string response" where
  "dropping i =
     (if i = 0 then Inr \<lparr>ok = False, body = ''Service Unavailable''\<rparr>
      else Inl (ErrorInstance ''socket hang up''))"

text \<open>
  Stages of the handler: a feed with two films and a feed that gives nothing; a walker
  result with a repeated film and an empty walker result.
\<close>

definition feedStage :: stage where
  "feedStage listPath = Fulfilled (Some [feedAlien, feedRan])"

definition feedNothing :: stage where
  "feedNothing listPath = Fulfilled None"

definition walkerStage :: stage where
  "walkerStage listPath = Fulfilled (Some [alien, heat, alien])"

definition walkerEmpty :: stage where
  "walkerEmpty listPath = Fulfilled (Some [])"

section \<open>Properties of deduplication\<close>

lemma dedupe_filter_slugs:
  "slug ` set (dedupe_filter seen fs) = slug ` set fs - seen"
  by (induction fs arbitrary: seen) auto

lemma dedupe_filter_distinct: "distinct (map slug (dedupe_filter seen fs))"
proof (induction fs arbitrary: seen)
  case Nil
  show ?case by simp
next
  case (Cons f fs)
  have "slug f \<notin> slug ` set (dedupe_filter (insert (slug f) seen) fs)"
    by (simp add: dedupe_filter_slugs)
  with Cons show ?case by simp
qed

lemma dedupe_filter_nths:
  "dedupe_filter seen fs =
     nths fs {i. slug (fs ! i) \<notin> seen \<and> (\<forall>j<i. slug (fs ! j) \<noteq> slug (fs ! i))}"
proof (induction fs arbitrary: seen)
  case Nil
  show ?case by simp
next
  case (Cons f fs)
  let ?keep = "\<lambda>fs s. {i. slug (fs ! i) \<notin> s \<and> (\<forall>j<i. slug (fs ! j) \<noteq> slug (fs ! i))}"
  have shift_seen: "{i. Suc i \<in> ?keep (f # fs) seen} = ?keep fs (insert (slug f) seen)"
    if "slug f \<notin> seen"
    using that by (auto simp: All_less_Suc2)
  have shift_dup: "{i. Suc i \<in> ?keep (f # fs) seen} = ?keep fs seen"
    if "slug f \<in> seen"
    using that by (auto simp: All_less_Suc2)
  show ?case
  proof (cases "slug f \<in> seen")
    case True
    then show ?thesis
      using Cons [of seen] shift_dup by (simp add: nths_Cons)
  next
    case False
    then show ?thesis
      using Cons [of "insert (slug f) seen"] shift_seen by (simp add: nths_Cons)
  qed
qed

text \<open>
  C1. For every film list, the output of \<^verbatim>\<open>dedupeFilms\<close> has no two records with the same
  slug, and it is the subsequence of the input made of the first occurrence of each slug:
  the record at index \<open>i\<close> is kept exactly when no earlier record has its slug. Every slug
  of the input is still present.
\<close>

theorem dedupeFilms_first_occurrences:
  "distinct (map slug (dedupeFilms fs)) \<and>
   dedupeFilms fs = nths fs {i. \<forall>j<i. slug (fs ! j) \<noteq> slug (fs ! i)} \<and>
   slug ` set (dedupeFilms fs) = slug ` set fs"
proof (intro conjI)
  show "distinct (map slug (dedupeFilms fs))"
    unfolding dedupeFilms_def by (rule dedupe_filter_distinct)
  show "dedupeFilms fs = nths fs {i. \<forall>j<i. slug (fs ! j) \<noteq> slug (fs ! i)}"
    unfolding dedupeFilms_def by (simp add: dedupe_filter_nths [of "{}"])
  show "slug ` set (dedupeFilms fs) = slug ` set fs"
    unfolding dedupeFilms_def by (simp add: dedupe_filter_slugs)
qed

theorem dedupeFilms_first_occurrences_witness:
  "dedupeFilms
     [\<lparr>title = ''Alien'', year = '''', slug = ''alien'', letterboxdUrl = ''u1''\<rparr>,
      \<lparr>title = ''Heat'', year = '''', slug = ''heat'', letterboxdUrl = ''u2''\<rparr>,
      \<lparr>title = ''Alien (1979)'', year = ''1979'', slug = ''alien'', letterboxdUrl = ''u3''\<rparr>] =
     [\<lparr>title = ''Alien'', year = '''', slug = ''alien'', letterboxdUrl = ''u1''\<rparr>,
      \<lparr>title = ''Heat'', year = '''', slug = ''heat'', letterboxdUrl = ''u2''\<rparr>]"
  using dedupeFilms_first_occurrences
    [of "[\<lparr>title = ''Alien'', year = '''', slug = ''alien'', letterboxdUrl = ''u1''\<rparr>,
          \<lparr>title = ''Heat'', year = '''', slug = ''heat'', letterboxdUrl = ''u2''\<rparr>,
          \<lparr>title = ''Alien (1979)'', year = ''1979'', slug = ''alien'',
             letterboxdUrl = ''u3''\<rparr>]"]
  by (simp add: nths_Cons All_less_Suc2)

section \<open>Properties of list-identity derivation\<close>

lemma literal_iff: "literal p s = Some r \<longleftrightarrow> s = p @ r"
  by (induction p s rule: literal.induct) auto

lemma takeWhile_segment: "CHR ''/'' \<notin> set g \<Longrightarrow> takeWhile notSlash (g @ CHR ''/'' # r) = g"
  by (induction g) (auto simp: notSlash_def)

lemma dropWhile_segment: "CHR ''/'' \<notin> set g \<Longrightarrow> dropWhile notSlash (g @ CHR ''/'' # r) = CHR ''/'' # r"
  by (induction g) (auto simp: notSlash_def)

lemma takeWhile_notSlash_append:
  "CHR ''/'' \<notin> set g \<Longrightarrow> takeWhile notSlash (g @ r) = g @ takeWhile notSlash r"
  by (induction g) (auto simp: notSlash_def)

lemma takeWhile_notSlash_set: "CHR ''/'' \<notin> set (takeWhile notSlash r)"
  by (induction r) (auto simp: notSlash_def)

lemma match_here_complete:
  assumes "segment g1" "segment g2"
  shows "match_here (''letterboxd.com/'' @ g1 @ ''/list/'' @ g2 @ post) =
           Some (g1, g2 @ takeWhile notSlash post)"
proof -
  have l1: "literal ''letterboxd.com/'' (''letterboxd.com/'' @ g1 @ ''/list/'' @ g2 @ post)
              = Some (g1 @ ''/list/'' @ g2 @ post)"
    by (simp only: literal_iff)
  have t1: "takeWhile notSlash (g1 @ ''/list/'' @ g2 @ post) = g1"
    using assms(1) takeWhile_segment [of g1 "''list/'' @ g2 @ post"] by (simp add: segment_def)
  have d1: "dropWhile notSlash (g1 @ ''/list/'' @ g2 @ post) = ''/list/'' @ g2 @ post"
    using assms(1) dropWhile_segment [of g1 "''list/'' @ g2 @ post"] by (simp add: segment_def)
  have l2: "literal ''/list/'' (''/list/'' @ g2 @ post) = Some (g2 @ post)"
    by (simp only: literal_iff)
  have t2: "takeWhile notSlash (g2 @ post) = g2 @ takeWhile notSlash post"
    using assms(2) by (simp add: segment_def takeWhile_notSlash_append)
  have n1: "g1 \<noteq> []" and n2: "g2 @ takeWhile notSlash post \<noteq> []"
    using assms by (simp_all add: segment_def)
  show ?thesis
    by (simp only: match_here_def l1 option.case Let_def t1 d1 l2 t2 n1 n2 if_False)
qed

lemma match_here_sound:
  assumes "match_here s = Some (g1, g2)"
  shows "\<exists>post. s = ''letterboxd.com/'' @ g1 @ ''/list/'' @ g2 @ post \<and> segment g1 \<and> segment g2
           \<and> takeWhile notSlash post = []"
proof -
  from assms obtain s1 where s1: "literal ''letterboxd.com/'' s = Some s1"
    by (auto simp: match_here_def split: option.splits)
  from assms s1 obtain s2 where g1: "g1 = takeWhile notSlash s1" "g1 \<noteq> []"
    and s2: "literal ''/list/'' (dropWhile notSlash s1) = Some s2"
    by (auto simp: match_here_def Let_def split: option.splits if_splits)
  from assms s1 s2 g1 have g2: "g2 = takeWhile notSlash s2" "g2 \<noteq> []"
    by (auto simp: match_here_def Let_def split: option.splits if_splits)
  have e1: "s = ''letterboxd.com/'' @ s1" using s1 by (simp only: literal_iff)
  have e2: "dropWhile notSlash s1 = ''/list/'' @ s2" using s2 by (simp only: literal_iff)
  have "s1 = takeWhile notSlash s1 @ dropWhile notSlash s1" by simp
  then have e3: "s1 = g1 @ ''/list/'' @ s2" using g1 e2 by simp
  have e4: "s2 = g2 @ dropWhile notSlash s2" using g2 by simp
  have "takeWhile notSlash (dropWhile notSlash s2) = []"
    by (metis (full_types) dropWhile_eq_Nil_conv hd_dropWhile takeWhile.simps(1) takeWhile_eq_Nil_iff)
  moreover have "segment g1" "segment g2"
    using g1 g2 by (simp_all add: segment_def takeWhile_notSlash_set)
  moreover have "s = ''letterboxd.com/'' @ g1 @ ''/list/'' @ g2 @ dropWhile notSlash s2"
    using e1 e3 e4 by simp
  ultimately show ?thesis by blast
qed

lemma regex_match_Some:
  "regex_match s = Some m \<Longrightarrow>
     \<exists>pre rest. s = pre @ rest \<and> match_here rest = Some m \<and>
        (\<forall>k<length pre. match_here (drop k s) = None)"
proof (induction s)
  case Nil
  then show ?case by auto
next
  case (Cons c cs)
  show ?case
  proof (cases "match_here (c # cs)")
    case (Some m')
    with Cons.prems have "match_here (c # cs) = Some m" by simp
    then have "c # cs = [] @ (c # cs) \<and> match_here (c # cs) = Some m \<and>
        (\<forall>k<length ([]::string). match_here (drop k (c # cs)) = None)" by simp
    then show ?thesis by blast
  next
    case None
    with Cons.prems have "regex_match cs = Some m" by simp
    from Cons.IH [OF this] obtain pre rest where pr: "cs = pre @ rest" "match_here rest = Some m"
      "\<forall>k<length pre. match_here (drop k cs) = None" by blast
    have "\<forall>k<length (c # pre). match_here (drop k (c # cs)) = None"
    proof (intro allI impI)
      fix k assume "k < length (c # pre)"
      then show "match_here (drop k (c # cs)) = None"
        using None pr(3) by (cases k) auto
    qed
    with pr(1,2) have "c # cs = (c # pre) @ rest \<and> match_here rest = Some m \<and>
       (\<forall>k<length (c # pre). match_here (drop k (c # cs)) = None)" by simp
    then show ?thesis by blast
  qed
qed

lemma regex_match_None:
  "regex_match s = None \<Longrightarrow> k \<le> length s \<Longrightarrow> match_here (drop k s) = None"
proof (induction s arbitrary: k)
  case Nil
  then show ?case by simp
next
  case (Cons c cs)
  then show ?case by (cases k) (auto split: option.splits)
qed


lemma match_here_iff:
  "match_here s = Some (g1, g2) \<longleftrightarrow>
     (\<exists>post. s = ''letterboxd.com/'' @ g1 @ ''/list/'' @ g2 @ post \<and> segment g1 \<and> segment g2
         \<and> takeWhile notSlash post = [])"
proof
  assume "match_here s = Some (g1, g2)"
  then show "\<exists>post. s = ''letterboxd.com/'' @ g1 @ ''/list/'' @ g2 @ post \<and> segment g1 \<and> segment g2
         \<and> takeWhile notSlash post = []"
    by (rule match_here_sound)
next
  assume "\<exists>post. s = ''letterboxd.com/'' @ g1 @ ''/list/'' @ g2 @ post \<and> segment g1 \<and> segment g2
         \<and> takeWhile notSlash post = []"
  then obtain post where p: "s = ''letterboxd.com/'' @ g1 @ ''/list/'' @ g2 @ post"
    "segment g1" "segment g2" "takeWhile notSlash post = []" by blast
  show "match_here s = Some (g1, g2)"
    using match_here_complete [OF p(2,3), of post] p(1,4) by simp
qed

lemma match_here_occurrence:
  assumes "occurrence s pre g1 g2 post"
  shows "match_here (drop (length pre) s) \<noteq> None"
proof -
  have "drop (length pre) s = ''letterboxd.com/'' @ g1 @ ''/list/'' @ g2 @ post"
    using assms by (simp add: occurrence_def)
  then show ?thesis
    using assms match_here_complete [of g1 g2 post] by (simp add: occurrence_def)
qed

lemma extractListPath_None_iff: "extractListPath s = None \<longleftrightarrow> regex_match s = None"
  by (auto simp: extractListPath_def split: option.splits)

lemma extractListPath_first:
  assumes "extractListPath s = Some p"
  shows "\<exists>pre g1 g2 post. occurrence s pre g1 g2 post \<and> p = ''/'' @ g1 @ ''/list/'' @ g2 \<and>
           takeWhile notSlash post = [] \<and>
           (\<forall>pre' g1' g2' post'. occurrence s pre' g1' g2' post' \<longrightarrow> length pre \<le> length pre')"
proof -
  from assms obtain g1 g2 where m: "regex_match s = Some (g1, g2)"
    and p: "p = ''/'' @ g1 @ ''/list/'' @ g2"
    by (auto simp: extractListPath_def split: option.splits)
  from regex_match_Some [OF m] obtain pre rest where pr: "s = pre @ rest"
    "match_here rest = Some (g1, g2)" "\<forall>k<length pre. match_here (drop k s) = None"
    by blast
  from match_here_sound [OF pr(2)] obtain post where
    post: "rest = ''letterboxd.com/'' @ g1 @ ''/list/'' @ g2 @ post" "segment g1" "segment g2"
      "takeWhile notSlash post = []"
    by blast
  have occ: "occurrence s pre g1 g2 post"
    using pr(1) post by (simp add: occurrence_def)
  have first: "length pre \<le> length pre'" if "occurrence s pre' g1' g2' post'"
    for pre' g1' g2' post'
  proof (rule ccontr)
    assume "\<not> length pre \<le> length pre'"
    then have "match_here (drop (length pre') s) = None" using pr(3) by simp
    with match_here_occurrence [OF that] show False by simp
  qed
  from occ p post(4) first show ?thesis by blast
qed

lemma extractListPath_occurrence:
  assumes "occurrence s pre g1 g2 post"
  shows "extractListPath s \<noteq> None"
proof
  assume "extractListPath s = None"
  then have "regex_match s = None" by (simp add: extractListPath_None_iff)
  moreover have "length pre \<le> length s" using assms by (simp add: occurrence_def)
  ultimately have "match_here (drop (length pre) s) = None" by (rule regex_match_None)
  with match_here_occurrence [OF assms] show False by simp
qed

text \<open>
  C10. For every input string, \<^verbatim>\<open>extractListPath\<close> returns a path exactly when the string
  contains, anywhere, an occurrence of \<^verbatim>\<open>letterboxd.com/\<close>, a segment, \<^verbatim>\<open>/list/\<close> and a
  segment: nothing else of the string is looked at. The path returned is built from the
  first occurrence (no occurrence starts further left), with the second segment taken up
  to the next \<^verbatim>\<open>/\<close> or the end of the string.
\<close>

theorem extractListPath_iff_occurrence:
  "(extractListPath s \<noteq> None \<longleftrightarrow> (\<exists>pre g1 g2 post. occurrence s pre g1 g2 post)) \<and>
   (\<forall>p. extractListPath s = Some p \<longrightarrow>
      (\<exists>pre g1 g2 post. occurrence s pre g1 g2 post \<and> p = ''/'' @ g1 @ ''/list/'' @ g2 \<and>
         takeWhile notSlash post = [] \<and>
         (\<forall>pre' g1' g2' post'. occurrence s pre' g1' g2' post' \<longrightarrow> length pre \<le> length pre')))"
proof (intro conjI allI impI iffI)
  assume "extractListPath s \<noteq> None"
  then obtain p where "extractListPath s = Some p" by auto
  from extractListPath_first [OF this] show "\<exists>pre g1 g2 post. occurrence s pre g1 g2 post"
    by blast
next
  assume "\<exists>pre g1 g2 post. occurrence s pre g1 g2 post"
  then show "extractListPath s \<noteq> None" using extractListPath_occurrence by blast
next
  fix p assume "extractListPath s = Some p"
  then show "\<exists>pre g1 g2 post. occurrence s pre g1 g2 post \<and> p = ''/'' @ g1 @ ''/list/'' @ g2 \<and>
         takeWhile notSlash post = [] \<and>
         (\<forall>pre' g1' g2' post'. occurrence s pre' g1' g2' post' \<longrightarrow> length pre \<le> length pre')"
    by (rule extractListPath_first)
qed

theorem extractListPath_iff_occurrence_witness:
  "extractListPath ''see letterboxd.com/a/list/b here'' = Some ''/a/list/b here'' \<and>
   (\<exists>pre g1 g2 post. occurrence ''see letterboxd.com/a/list/b here'' pre g1 g2 post)"
proof -
  have h: "extractListPath ''see letterboxd.com/a/list/b here'' = Some ''/a/list/b here''"
    by code_simp
  from extractListPath_iff_occurrence [of "''see letterboxd.com/a/list/b here''"] h
  show ?thesis by simp
qed

lemma match_here_slash: "match_here (s @ ''/'') = match_here s"
proof -
  have "match_here (s @ ''/'') = Some (g1, g2) \<longleftrightarrow> match_here s = Some (g1, g2)" for g1 g2
  proof
    assume "match_here (s @ ''/'') = Some (g1, g2)"
    then obtain post where p: "s @ ''/'' = ''letterboxd.com/'' @ g1 @ ''/list/'' @ g2 @ post"
      "segment g1" "segment g2" "takeWhile notSlash post = []"
      unfolding match_here_iff by blast
    have "post \<noteq> []"
    proof
      assume "post = []"
      with p(1) have "last (s @ ''/'') = last (''letterboxd.com/'' @ g1 @ ''/list/'' @ g2)" by simp
      also have "\<dots> = last g2" using p(3) by (simp add: segment_def)
      finally have "last g2 = CHR ''/''" by simp
      moreover have "last g2 \<in> set g2" using p(3) by (simp add: segment_def)
      ultimately show False using p(3) by (simp add: segment_def)
    qed
    then obtain post0 c where pc: "post = post0 @ [c]" by (metis rev_exhaust)
    with p(1) have "s @ ''/'' = (''letterboxd.com/'' @ g1 @ ''/list/'' @ g2 @ post0) @ [c]" by simp
    then have s: "s = ''letterboxd.com/'' @ g1 @ ''/list/'' @ g2 @ post0" and c: "c = CHR ''/''"
      by (simp_all only: append1_eq_conv)
    have "takeWhile notSlash post0 = []"
      using p(4) pc by (cases post0) (auto split: if_splits)
    with s p(2,3) show "match_here s = Some (g1, g2)" unfolding match_here_iff by blast
  next
    assume "match_here s = Some (g1, g2)"
    then obtain post where p: "s = ''letterboxd.com/'' @ g1 @ ''/list/'' @ g2 @ post"
      "segment g1" "segment g2" "takeWhile notSlash post = []"
      unfolding match_here_iff by blast
    have "takeWhile notSlash (post @ ''/'') = []"
      using p(4) by (cases post) (auto simp: notSlash_def split: if_splits)
    moreover have "s @ ''/'' = ''letterboxd.com/'' @ g1 @ ''/list/'' @ g2 @ (post @ ''/'')"
      using p(1) by simp
    ultimately show "match_here (s @ ''/'') = Some (g1, g2)"
      using p(2,3) unfolding match_here_iff by blast
  qed
  then show ?thesis
    by (cases "match_here (s @ ''/'')"; cases "match_here s") auto
qed

lemma match_here_Nil: "match_here [] = None"
  by (simp add: match_here_def)

lemma regex_match_slash: "regex_match (s @ ''/'') = regex_match s"
proof (induction s)
  case Nil
  have "match_here ''/'' = None" using match_here_slash [of "[]"] by (simp add: match_here_Nil)
  then show ?case by (simp add: match_here_Nil)
next
  case (Cons c cs)
  have "match_here (c # cs @ ''/'') = match_here (c # cs)"
    using match_here_slash [of "c # cs"] by simp
  with Cons show ?case by (simp split: option.split)
qed

lemma extractListPath_slash: "extractListPath (s @ ''/'') = extractListPath s"
  by (simp only: extractListPath_def regex_match_slash)

lemma extractListPath_slashes: "extractListPath (s @ replicate n (CHR ''/'')) = extractListPath s"
proof (induction n)
  case 0
  show ?case by simp
next
  case (Suc n)
  have "s @ replicate (Suc n) (CHR ''/'') = (s @ replicate n (CHR ''/'')) @ ''/''"
    by (simp add: replicate_append_same)
  then show ?case using Suc extractListPath_slash [of "s @ replicate n (CHR ''/'')"] by simp
qed

lemma removeTrailingSlashes_decomp:
  "\<exists>n. s = removeTrailingSlashes s @ replicate n (CHR ''/'')"
proof (induction s rule: rev_induct)
  case Nil
  show ?case by (simp add: removeTrailingSlashes_def)
next
  case (snoc c s)
  show ?case
  proof (cases "c = CHR ''/''")
    case True
    from snoc obtain n where n: "s = removeTrailingSlashes s @ replicate n (CHR ''/'')" by blast
    have "removeTrailingSlashes (s @ [c]) = removeTrailingSlashes s"
      using True by (simp add: removeTrailingSlashes_def)
    moreover have "s @ [c] = removeTrailingSlashes s @ replicate (Suc n) (CHR ''/'')"
      using n True by (metis append.assoc replicate_append_same replicate_Suc append_Cons append_Nil)
    ultimately show ?thesis by metis
  next
    case False
    then have "removeTrailingSlashes (s @ [c]) = s @ [c]"
      by (simp add: removeTrailingSlashes_def)
    then have "s @ [c] = removeTrailingSlashes (s @ [c]) @ replicate 0 (CHR ''/'')" by simp
    then show ?thesis by blast
  qed
qed

text \<open>
  C9, as the claim states it, fails: \<^verbatim>\<open>normalizeUrl\<close> lower-cases, the pattern of
  \<^verbatim>\<open>extractListPath\<close> does not. Two URLs that differ in the letter case of the host only have
  the same normal form, and \<^verbatim>\<open>extractListPath\<close> derives a path from one and none from the
  other.
\<close>

theorem host_case_counterexample:
  "normalizeUrl ''https://Letterboxd.com/alice/list/favorites/'' =
     normalizeUrl ''https://letterboxd.com/alice/list/favorites/'' \<and>
   extractListPath ''https://Letterboxd.com/alice/list/favorites/'' = None \<and>
   extractListPath ''https://letterboxd.com/alice/list/favorites/'' = Some ''/alice/list/favorites''"
  by code_simp

text \<open>
  C9, amended. Two input URLs that differ only in trailing slashes (they are equal once the
  run of slashes at the end is removed, as \<^verbatim>\<open>normalizeUrl\<close> does) get the same result from
  \<^verbatim>\<open>extractListPath\<close>: the same path, or none for both.
\<close>

theorem extractListPath_trailing_slashes:
  "removeTrailingSlashes u1 = removeTrailingSlashes u2 \<Longrightarrow> extractListPath u1 = extractListPath u2"
proof -
  assume eq: "removeTrailingSlashes u1 = removeTrailingSlashes u2"
  obtain n1 where n1: "u1 = removeTrailingSlashes u1 @ replicate n1 (CHR ''/'')"
    using removeTrailingSlashes_decomp by blast
  obtain n2 where n2: "u2 = removeTrailingSlashes u2 @ replicate n2 (CHR ''/'')"
    using removeTrailingSlashes_decomp by blast
  have "extractListPath u1 = extractListPath (removeTrailingSlashes u1)"
    using extractListPath_slashes [of "removeTrailingSlashes u1" n1] n1 by simp
  also have "\<dots> = extractListPath u2"
    using extractListPath_slashes [of "removeTrailingSlashes u2" n2] n2 eq by simp
  finally show ?thesis .
qed

theorem extractListPath_trailing_slashes_witness:
  "removeTrailingSlashes ''https://letterboxd.com/alice/list/favorites//'' =
     removeTrailingSlashes ''https://letterboxd.com/alice/list/favorites'' \<and>
   extractListPath ''https://letterboxd.com/alice/list/favorites//'' =
     extractListPath ''https://letterboxd.com/alice/list/favorites''"
proof -
  have h: "removeTrailingSlashes ''https://letterboxd.com/alice/list/favorites//'' =
             removeTrailingSlashes ''https://letterboxd.com/alice/list/favorites''"
    by (simp add: removeTrailingSlashes_def)
  show ?thesis using h extractListPath_trailing_slashes [OF h] by (rule conjI)
qed

section \<open>Properties of the retrying fetch\<close>

lemma fetchWithRetry_closed:
  "fetchWithRetry fetch =
     (case fetch 0 of
        Inr r0 \<Rightarrow> if ok r0 then (Inr (Some r0), \<lparr>attempts = 1, delays = []\<rparr>) else
           (case fetch 1 of
              Inr r1 \<Rightarrow> if ok r1 then (Inr (Some r1), \<lparr>attempts = 2, delays = [500]\<rparr>) else
                (case fetch 2 of
                   Inr r2 \<Rightarrow> if ok r2 then (Inr (Some r2), \<lparr>attempts = 3, delays = [500, 1000]\<rparr>)
                            else (Inr None, \<lparr>attempts = 3, delays = [500, 1000]\<rparr>)
                 | Inl e2 \<Rightarrow> (Inl e2, \<lparr>attempts = 3, delays = [500, 1000]\<rparr>))
            | Inl e1 \<Rightarrow>
                (case fetch 2 of
                   Inr r2 \<Rightarrow> if ok r2 then (Inr (Some r2), \<lparr>attempts = 3, delays = [500, 1000]\<rparr>)
                            else (Inr None, \<lparr>attempts = 3, delays = [500, 1000]\<rparr>)
                 | Inl e2 \<Rightarrow> (Inl e2, \<lparr>attempts = 3, delays = [500, 1000]\<rparr>)))
      | Inl e0 \<Rightarrow>
           (case fetch 1 of
              Inr r1 \<Rightarrow> if ok r1 then (Inr (Some r1), \<lparr>attempts = 2, delays = [500]\<rparr>) else
                (case fetch 2 of
                   Inr r2 \<Rightarrow> if ok r2 then (Inr (Some r2), \<lparr>attempts = 3, delays = [500, 1000]\<rparr>)
                            else (Inr None, \<lparr>attempts = 3, delays = [500, 1000]\<rparr>)
                 | Inl e2 \<Rightarrow> (Inl e2, \<lparr>attempts = 3, delays = [500, 1000]\<rparr>))
            | Inl e1 \<Rightarrow>
                (case fetch 2 of
                   Inr r2 \<Rightarrow> if ok r2 then (Inr (Some r2), \<lparr>attempts = 3, delays = [500, 1000]\<rparr>)
                            else (Inr None, \<lparr>attempts = 3, delays = [500, 1000]\<rparr>)
                 | Inl e2 \<Rightarrow> (Inl e2, \<lparr>attempts = 3, delays = [500, 1000]\<rparr>))))"
  by (simp add: fetchWithRetry_def Let_def numeral_2_eq_2 split: sum.split)

lemma less_3_cases: "i < (3::nat) \<longleftrightarrow> i = 0 \<or> i = 1 \<or> i = 2"
  by auto

lemma fetchWithRetry_attempts_le: "attempts (snd (fetchWithRetry fetch)) \<le> 3"
  by (simp add: fetchWithRetry_closed split: sum.split)

lemma fetchWithRetry_first_ok:
  assumes "i < 3" "fetch i = Inr r" "ok r" "\<forall>j<i. \<not> succeeds (fetch j)"
  shows "fetchWithRetry fetch = (Inr (Some r), \<lparr>attempts = i + 1, delays = take i [500, 1000]\<rparr>)"
proof -
  from assms(1) consider "i = 0" | "i = 1" | "i = 2" by (auto simp: less_3_cases)
  then show ?thesis
  proof cases
    case 1
    with assms show ?thesis by (simp add: fetchWithRetry_closed)
  next
    case 2
    with assms have "\<not> succeeds (fetch 0)" by simp
    with 2 assms(2,3) show ?thesis
      by (auto simp: fetchWithRetry_closed succeeds_def split: sum.splits)
  next
    case 3
    with assms have "\<not> succeeds (fetch 0)" "\<not> succeeds (fetch 1)" by simp_all
    with 3 assms(2,3) show ?thesis
      by (auto simp: fetchWithRetry_closed succeeds_def split: sum.splits)
  qed
qed

lemma fetchWithRetry_all_non_ok:
  assumes "\<forall>i<3. \<exists>r. fetch i = Inr r \<and> \<not> ok r"
  shows "fetchWithRetry fetch = (Inr None, \<lparr>attempts = 3, delays = [500, 1000]\<rparr>)"
proof -
  from assms obtain r0 r1 r2 where "fetch 0 = Inr r0" "\<not> ok r0" "fetch 1 = Inr r1" "\<not> ok r1"
    "fetch 2 = Inr r2" "\<not> ok r2"
    by (metis less_3_cases)
  then show ?thesis by (simp add: fetchWithRetry_closed)
qed

lemma fetchWithRetry_final_throw:
  assumes "\<not> succeeds (fetch 0)" "\<not> succeeds (fetch 1)" "fetch 2 = Inl e"
  shows "fetchWithRetry fetch = (Inl e, \<lparr>attempts = 3, delays = [500, 1000]\<rparr>)"
  using assms by (auto simp: fetchWithRetry_closed succeeds_def split: sum.splits)

text \<open>
  C5. For every behaviour of the network, \<^verbatim>\<open>fetchWithRetry\<close> calls \<^verbatim>\<open>fetch\<close> at most 3
  times. It returns the response of the first attempt that succeeds, and makes no attempt
  after it. When all three attempts resolve with a response that is not \<^verbatim>\<open>ok\<close>, it returns
  \<^verbatim>\<open>null\<close>. When the first two attempts do not succeed and the third one throws, the
  exception of the third attempt is thrown to the caller.
\<close>

theorem fetchWithRetry_three_attempts:
  "attempts (snd (fetchWithRetry fetch)) \<le> 3 \<and>
   (\<forall>i r. i < 3 \<and> fetch i = Inr r \<and> ok r \<and> (\<forall>j<i. \<not> succeeds (fetch j)) \<longrightarrow>
      fst (fetchWithRetry fetch) = Inr (Some r) \<and> attempts (snd (fetchWithRetry fetch)) = i + 1) \<and>
   ((\<forall>i<3. \<exists>r. fetch i = Inr r \<and> \<not> ok r) \<longrightarrow>
      fst (fetchWithRetry fetch) = Inr None \<and> attempts (snd (fetchWithRetry fetch)) = 3) \<and>
   (\<forall>e. \<not> succeeds (fetch 0) \<and> \<not> succeeds (fetch 1) \<and> fetch 2 = Inl e \<longrightarrow>
      fst (fetchWithRetry fetch) = Inl e \<and> attempts (snd (fetchWithRetry fetch)) = 3)"
proof (intro conjI allI impI)
  show "attempts (snd (fetchWithRetry fetch)) \<le> 3" by (rule fetchWithRetry_attempts_le)
next
  fix i r
  assume a: "i < 3 \<and> fetch i = Inr r \<and> ok r \<and> (\<forall>j<i. \<not> succeeds (fetch j))"
  then have e: "fetchWithRetry fetch =
      (Inr (Some r), \<lparr>attempts = i + 1, delays = take i [500, 1000]\<rparr>)"
    using fetchWithRetry_first_ok [of i fetch r] by blast
  show "fst (fetchWithRetry fetch) = Inr (Some r)" by (simp add: e)
  show "attempts (snd (fetchWithRetry fetch)) = i + 1" by (simp add: e)
next
  assume a: "\<forall>i<3. \<exists>r. fetch i = Inr r \<and> \<not> ok r"
  show "fst (fetchWithRetry fetch) = Inr None" by (simp add: fetchWithRetry_all_non_ok [OF a])
  show "attempts (snd (fetchWithRetry fetch)) = 3" by (simp add: fetchWithRetry_all_non_ok [OF a])
next
  fix e
  assume a: "\<not> succeeds (fetch 0) \<and> \<not> succeeds (fetch 1) \<and> fetch 2 = Inl e"
  then have e: "fetchWithRetry fetch = (Inl e, \<lparr>attempts = 3, delays = [500, 1000]\<rparr>)"
    using fetchWithRetry_final_throw [of fetch e] by blast
  show "fst (fetchWithRetry fetch) = Inl e" by (simp add: e)
  show "attempts (snd (fetchWithRetry fetch)) = 3" by (simp add: e)
qed

theorem fetchWithRetry_three_attempts_witness:
  "fetchWithRetry flaky =
     (Inr (Some \<lparr>ok = True, body = ''<html>''\<rparr>), \<lparr>attempts = 3, delays = [500, 1000]\<rparr>) \<and>
   fst (fetchWithRetry refusing) = Inr None \<and>
   attempts (snd (fetchWithRetry refusing)) = 3 \<and>
   fst (fetchWithRetry dropping) = Inl (ErrorInstance ''socket hang up'')"
proof (intro conjI)
  have "(2::nat) < 3 \<and> flaky 2 = Inr \<lparr>ok = True, body = ''<html>''\<rparr> \<and>
        ok \<lparr>ok = True, body = ''<html>''\<rparr> \<and> (\<forall>j<2. \<not> succeeds (flaky j))"
    by (simp add: flaky_def succeeds_def less_2_cases_iff)
  with fetchWithRetry_three_attempts [of flaky]
  have "fst (fetchWithRetry flaky) = Inr (Some \<lparr>ok = True, body = ''<html>''\<rparr>) \<and>
        attempts (snd (fetchWithRetry flaky)) = 2 + 1"
    by blast
  moreover have "delays (snd (fetchWithRetry flaky)) = [500, 1000]"
    by (simp add: fetchWithRetry_closed flaky_def)
  ultimately show "fetchWithRetry flaky =
     (Inr (Some \<lparr>ok = True, body = ''<html>''\<rparr>), \<lparr>attempts = 3, delays = [500, 1000]\<rparr>)"
    by (cases "fetchWithRetry flaky") simp
next
  have r: "\<forall>i<3. \<exists>r. refusing i = Inr r \<and> \<not> ok r" by (simp add: refusing_def)
  with fetchWithRetry_three_attempts [of refusing]
  show "fst (fetchWithRetry refusing) = Inr None"
    and "attempts (snd (fetchWithRetry refusing)) = 3"
    by blast+
next
  have "\<not> succeeds (dropping 0) \<and> \<not> succeeds (dropping 1) \<and>
        dropping 2 = Inl (ErrorInstance ''socket hang up'')"
    by (simp add: dropping_def succeeds_def)
  with fetchWithRetry_three_attempts [of dropping]
  show "fst (fetchWithRetry dropping) = Inl (ErrorInstance ''socket hang up'')"
    by blast
qed

section \<open>Properties of the pagination walker\<close>

lemma iteration_fetchFails: "fetchFails fetched \<Longrightarrow> iteration fetched w = fetchFailed w"
  by (auto simp: fetchFails_def iteration_def split: sum.splits option.splits)

lemma pageFetch_cong:
  "length (requested w) = length (requested v) \<Longrightarrow> page w = page v \<Longrightarrow>
     pageFetch net listPath w = pageFetch net listPath v"
  by (simp add: pageFetch_def)

lemma scrape_loop_exit:
  "\<not> (hasMore w \<and> consecutiveFailures w < 2) \<Longrightarrow> scrape_loop net listPath w = Some w"
  by (subst scrape_loop.simps) auto

lemma scrape_loop_step:
  "hasMore w \<Longrightarrow> consecutiveFailures w < 2 \<Longrightarrow>
   scrape_loop net listPath w =
     (case iteration (pageFetch net listPath w)
             (w\<lparr>requested := requested w @ [pageUrl listPath (page w)]\<rparr>) of
        Break w' \<Rightarrow> Some w'
      | Next w' \<Rightarrow> scrape_loop net listPath w')"
  by (subst scrape_loop.simps) simp

lemma fetchWithRetry_first_attempt_ok:
  "fetch 0 = Inr r \<Longrightarrow> ok r \<Longrightarrow> fst (fetchWithRetry fetch) = Inr (Some r)"
  by (simp add: fetchWithRetry_closed)

lemma pageUrl_second:
  "pageUrl ''/alice/list/favorites'' 2 = ''https://letterboxd.com/alice/list/favorites/page/2/''"
  "pageUrl ''/alice/list/favorites'' (Suc (Suc 0)) =
     ''https://letterboxd.com/alice/list/favorites/page/2/''"
  by code_simp+

lemma first_page_served:
  assumes "net 0 (pageUrl ''/alice/list/favorites'' 1) 0 = served firstPage"
  shows "scrapeAllPages net ''/alice/list/favorites'' =
           scrape_loop net ''/alice/list/favorites'' afterFirstPage"
proof -
  let ?l = "''/alice/list/favorites''"
  let ?w0 = "\<lparr>films = [], page = 1, hasMore = True, consecutiveFailures = 0, requested = []\<rparr>"
  have "pageFetch net ?l ?w0 = Inr (Some \<lparr>ok = True, body = Inr firstPage\<rparr>)"
    unfolding pageFetch_def using assms
    by (intro fetchWithRetry_first_attempt_ok) (simp_all add: served_def)
  then have "iteration (pageFetch net ?l ?w0)
       (?w0\<lparr>requested := requested ?w0 @ [pageUrl ?l (page ?w0)]\<rparr>) = Next afterFirstPage"
    by (simp add: iteration_def scrapePage_def firstPage_def scrapeItem_def orEmpty_def
        alien_def afterFirstPage_def pageUrl_def Let_def)
  then show ?thesis
    unfolding scrapeAllPages_def
    by (subst scrape_loop_step) simp_all
qed

text \<open>
  C4. When the page fetched in a pass has no list-item container, the walker returns at
  that pass with the films accumulated so far: the page counter does not advance and
  \<^verbatim>\<open>hasMore\<close> is cleared, whatever the numbers of next links of the page are. The check of
  the containers comes before the check of the next links.
\<close>

theorem empty_page_terminates:
  assumes "hasMore w" "consecutiveFailures w < 2"
    and "pageFetch net listPath w = Inr (Some response)" "ok response"
    and "body response = Inr doc" "posterItems doc = []"
  shows "scrape_loop net listPath w =
           Some (w\<lparr>requested := requested w @ [pageUrl listPath (page w)],
                   consecutiveFailures := 0, hasMore := False\<rparr>)"
  using assms by (simp add: scrape_loop_step iteration_def scrapePage_def)

theorem empty_page_terminates_witness:
  "0 < aNext emptyPageWithNext \<and> 0 < aRelNext emptyPageWithNext \<and>
   scrapeAllPages craftedNet ''/alice/list/favorites'' =
     Some \<lparr>films = [alien], page = 2, hasMore = False, consecutiveFailures = 0,
           requested = [''https://letterboxd.com/alice/list/favorites/'',
                        ''https://letterboxd.com/alice/list/favorites/page/2/'']\<rparr>"
proof -
  have f: "pageFetch craftedNet ''/alice/list/favorites'' afterFirstPage =
             Inr (Some \<lparr>ok = True, body = Inr emptyPageWithNext\<rparr>)"
    by (simp add: pageFetch_def fetchWithRetry_closed craftedNet_def served_def afterFirstPage_def)
  have "hasMore afterFirstPage" "consecutiveFailures afterFirstPage < 2"
    by (simp_all add: afterFirstPage_def)
  then have "scrape_loop craftedNet ''/alice/list/favorites'' afterFirstPage =
     Some (afterFirstPage\<lparr>requested := requested afterFirstPage @
                              [pageUrl ''/alice/list/favorites'' (page afterFirstPage)],
                          consecutiveFailures := 0, hasMore := False\<rparr>)"
    using f
    by (rule empty_page_terminates [where doc = emptyPageWithNext])
       (simp_all add: emptyPageWithNext_def)
  moreover have "scrapeAllPages craftedNet ''/alice/list/favorites'' =
      scrape_loop craftedNet ''/alice/list/favorites'' afterFirstPage"
    by (rule first_page_served) (simp add: craftedNet_def)
  ultimately show ?thesis by (simp add: afterFirstPage_def emptyPageWithNext_def pageUrl_second)
qed

lemma two_failures_stop:
  assumes "hasMore w" "consecutiveFailures w = 0" "page w \<noteq> 1"
    and f1: "fetchFails (pageFetch net listPath w)"
    and f2: "fetchFails (pageFetch net listPath
               (w\<lparr>requested := requested w @ [pageUrl listPath (page w)]\<rparr>))"
  shows "scrape_loop net listPath w =
           Some (w\<lparr>requested := requested w @ [pageUrl listPath (page w), pageUrl listPath (page w)],
                   consecutiveFailures := 2\<rparr>)"
proof -
  let ?u = "pageUrl listPath (page w)"
  let ?w1 = "w\<lparr>requested := requested w @ [?u], consecutiveFailures := 1\<rparr>"
  let ?w2 = "w\<lparr>requested := requested w @ [?u, ?u], consecutiveFailures := 2\<rparr>"
  have s1: "scrape_loop net listPath w = scrape_loop net listPath ?w1"
    using assms(1-3) f1 by (simp add: scrape_loop_step iteration_fetchFails fetchFailed_def)
  have "pageFetch net listPath ?w1 =
          pageFetch net listPath (w\<lparr>requested := requested w @ [?u]\<rparr>)"
    by (rule pageFetch_cong) simp_all
  with f2 have f2': "fetchFails (pageFetch net listPath ?w1)" by simp
  have s2: "scrape_loop net listPath ?w1 = scrape_loop net listPath ?w2"
    using assms(1,3) f2'
    by (simp add: scrape_loop_step iteration_fetchFails fetchFailed_def numeral_2_eq_2)
  have s3: "scrape_loop net listPath ?w2 = Some ?w2"
    by (rule scrape_loop_exit) simp
  from s1 s2 s3 show ?thesis by simp
qed

lemma last_failure_stops:
  assumes "hasMore w" "consecutiveFailures w = 1" "page w \<noteq> 1"
    and f1: "fetchFails (pageFetch net listPath w)"
  shows "scrape_loop net listPath w =
           Some (w\<lparr>requested := requested w @ [pageUrl listPath (page w)],
                   consecutiveFailures := 2\<rparr>)"
proof -
  let ?w2 = "w\<lparr>requested := requested w @ [pageUrl listPath (page w)], consecutiveFailures := 2\<rparr>"
  have "scrape_loop net listPath w = scrape_loop net listPath ?w2"
    using assms by (simp add: scrape_loop_step iteration_fetchFails fetchFailed_def numeral_2_eq_2)
  moreover have "scrape_loop net listPath ?w2 = Some ?w2"
    by (rule scrape_loop_exit) simp
  ultimately show ?thesis by simp
qed

lemma failure_then_success:
  assumes "hasMore w" "consecutiveFailures w = 0" "page w \<noteq> 1"
    and f1: "fetchFails (pageFetch net listPath w)"
    and f2: "pageFetch net listPath (w\<lparr>requested := requested w @ [pageUrl listPath (page w)]\<rparr>)
               = Inr (Some response)"
    and ok: "ok response"
  shows "scrape_loop net listPath w =
           (case iteration (Inr (Some response))
                   (w\<lparr>requested := requested w @ [pageUrl listPath (page w), pageUrl listPath (page w)],
                      consecutiveFailures := 0\<rparr>) of
              Break w' \<Rightarrow> Some w'
            | Next w' \<Rightarrow> scrape_loop net listPath w')"
proof -
  let ?u = "pageUrl listPath (page w)"
  let ?w1 = "w\<lparr>requested := requested w @ [?u], consecutiveFailures := 1\<rparr>"
  have s1: "scrape_loop net listPath w = scrape_loop net listPath ?w1"
    using assms(1-3) f1 by (simp add: scrape_loop_step iteration_fetchFails fetchFailed_def)
  have "pageFetch net listPath ?w1 =
          pageFetch net listPath (w\<lparr>requested := requested w @ [?u]\<rparr>)"
    by (rule pageFetch_cong) simp_all
  with f2 have f2': "pageFetch net listPath ?w1 = Inr (Some response)" by simp
  have it: "iteration (Inr (Some response)) (?w1\<lparr>requested := requested ?w1 @ [?u]\<rparr>) =
        iteration (Inr (Some response)) (w\<lparr>requested := requested w @ [?u, ?u], consecutiveFailures := 0\<rparr>)"
    using ok by (simp add: iteration_def)
  have "scrape_loop net listPath ?w1 =
     (case iteration (Inr (Some response)) (?w1\<lparr>requested := requested ?w1 @ [?u]\<rparr>) of
              Break w' \<Rightarrow> Some w'
            | Next w' \<Rightarrow> scrape_loop net listPath w')"
    using assms(1) f2' by (subst scrape_loop_step) simp_all
  with s1 it show ?thesis by simp
qed

text \<open>
  Failed calls of \<^verbatim>\<open>fetchWithRetry\<close>. After the first page (the page counter is no longer
  1), let a call fail: it throws, or returns \<^verbatim>\<open>null\<close> or a response that is not \<^verbatim>\<open>ok\<close>.
  If the failures are then two in a row (the counter was at 0 and the next call fails too,
  or the counter was at 1 already), the walker stops and returns its state with the films
  accumulated before, unchanged, and the counter at 2. If the counter was at 0 and the
  next call returns an \<^verbatim>\<open>ok\<close> response, the walk goes on with the pass for that response,
  run with the counter back at 0; when the body of the response can be read, that pass
  scrapes the page.
\<close>

lemma consecutive_fetch_failures:
  assumes "hasMore w" "consecutiveFailures w < 2" "page w \<noteq> 1"
    and "fetchFails (pageFetch net listPath w)"
  shows
    "((consecutiveFailures w = 0 \<longrightarrow>
         fetchFails (pageFetch net listPath
            (w\<lparr>requested := requested w @ [pageUrl listPath (page w)]\<rparr>))) \<longrightarrow>
       scrape_loop net listPath w =
         Some (w\<lparr>requested := requested w @
                     replicate (2 - consecutiveFailures w) (pageUrl listPath (page w)),
                 consecutiveFailures := 2\<rparr>)) \<and>
     (\<forall>response.
        consecutiveFailures w = 0 \<and>
        pageFetch net listPath (w\<lparr>requested := requested w @ [pageUrl listPath (page w)]\<rparr>) =
          Inr (Some response) \<and> ok response \<longrightarrow>
        scrape_loop net listPath w =
          (case iteration (Inr (Some response))
                  (w\<lparr>requested := requested w @
                         [pageUrl listPath (page w), pageUrl listPath (page w)],
                     consecutiveFailures := 0\<rparr>) of
             Break w' \<Rightarrow> Some w'
           | Next w' \<Rightarrow> scrape_loop net listPath w') \<and>
        (\<forall>doc. body response = Inr doc \<longrightarrow>
           iteration (Inr (Some response))
             (w\<lparr>requested := requested w @
                    [pageUrl listPath (page w), pageUrl listPath (page w)],
                consecutiveFailures := 0\<rparr>) =
           scrapePage doc
             (w\<lparr>requested := requested w @
                    [pageUrl listPath (page w), pageUrl listPath (page w)],
                consecutiveFailures := 0\<rparr>)))"
proof (intro conjI allI impI)
  assume second: "consecutiveFailures w = 0 \<longrightarrow>
         fetchFails (pageFetch net listPath
            (w\<lparr>requested := requested w @ [pageUrl listPath (page w)]\<rparr>))"
  show "scrape_loop net listPath w =
         Some (w\<lparr>requested := requested w @
                     replicate (2 - consecutiveFailures w) (pageUrl listPath (page w)),
                 consecutiveFailures := 2\<rparr>)"
  proof (cases "consecutiveFailures w = 0")
    case True
    with second assms show ?thesis
      by (simp add: two_failures_stop numeral_2_eq_2)
  next
    case False
    with assms(2) have "consecutiveFailures w = 1" by simp
    with assms show ?thesis by (simp add: last_failure_stops)
  qed
next
  fix response
  assume a: "consecutiveFailures w = 0 \<and>
        pageFetch net listPath (w\<lparr>requested := requested w @ [pageUrl listPath (page w)]\<rparr>) =
          Inr (Some response) \<and> ok response"
  then show "scrape_loop net listPath w =
          (case iteration (Inr (Some response))
                  (w\<lparr>requested := requested w @
                         [pageUrl listPath (page w), pageUrl listPath (page w)],
                     consecutiveFailures := 0\<rparr>) of
             Break w' \<Rightarrow> Some w'
           | Next w' \<Rightarrow> scrape_loop net listPath w')"
    using assms(1,3,4) by (intro failure_then_success) simp_all
  fix doc
  assume "body response = Inr doc"
  with a show "iteration (Inr (Some response))
             (w\<lparr>requested := requested w @
                    [pageUrl listPath (page w), pageUrl listPath (page w)],
                consecutiveFailures := 0\<rparr>) =
           scrapePage doc
             (w\<lparr>requested := requested w @
                    [pageUrl listPath (page w), pageUrl listPath (page w)],
                consecutiveFailures := 0\<rparr>)"
    by (simp add: iteration_def)
qed

lemma consecutive_fetch_failures_scenarios:
  "scrapeAllPages downNet ''/alice/list/favorites'' =
     Some \<lparr>films = [alien], page = 2, hasMore = True, consecutiveFailures = 2,
           requested = [''https://letterboxd.com/alice/list/favorites/'',
                        ''https://letterboxd.com/alice/list/favorites/page/2/'', ''https://letterboxd.com/alice/list/favorites/page/2/'']\<rparr> \<and>
   scrapeAllPages hiccupNet ''/alice/list/favorites'' =
     Some \<lparr>films = [alien, heat], page = 2, hasMore = False, consecutiveFailures = 0,
           requested = [''https://letterboxd.com/alice/list/favorites/'',
                        ''https://letterboxd.com/alice/list/favorites/page/2/'', ''https://letterboxd.com/alice/list/favorites/page/2/'']\<rparr>"
proof
  let ?l = "''/alice/list/favorites''"
  let ?w1 = "afterFirstPage\<lparr>requested := requested afterFirstPage @ [pageUrl ?l (page afterFirstPage)]\<rparr>"
  have st: "hasMore afterFirstPage" "consecutiveFailures afterFirstPage < 2" "page afterFirstPage \<noteq> 1"
    by (simp_all add: afterFirstPage_def)
  have d1: "fetchFails (pageFetch downNet ?l afterFirstPage)"
    by (simp add: pageFetch_def fetchWithRetry_closed downNet_def unavailable_def
        afterFirstPage_def fetchFails_def)
  have d2: "fetchFails (pageFetch downNet ?l ?w1)"
    by (simp add: pageFetch_def fetchWithRetry_closed downNet_def unavailable_def
        afterFirstPage_def fetchFails_def)
  have "scrapeAllPages downNet ?l = scrape_loop downNet ?l afterFirstPage"
    by (rule first_page_served) (simp add: downNet_def)
  with consecutive_fetch_failures [OF st d1] d2
  show "scrapeAllPages downNet ?l =
     Some \<lparr>films = [alien], page = 2, hasMore = True, consecutiveFailures = 2,
           requested = [''https://letterboxd.com/alice/list/favorites/'',
                        ''https://letterboxd.com/alice/list/favorites/page/2/'',
                        ''https://letterboxd.com/alice/list/favorites/page/2/'']\<rparr>"
    by (simp add: afterFirstPage_def numeral_2_eq_2 pageUrl_second)
  have h1: "fetchFails (pageFetch hiccupNet ?l afterFirstPage)"
    by (simp add: pageFetch_def fetchWithRetry_closed hiccupNet_def unavailable_def
        afterFirstPage_def fetchFails_def)
  have h2: "pageFetch hiccupNet ?l ?w1 = Inr (Some \<lparr>ok = True, body = Inr lastPage\<rparr>)"
    by (simp add: pageFetch_def fetchWithRetry_closed hiccupNet_def served_def afterFirstPage_def)
  have "consecutiveFailures afterFirstPage = 0 \<and>
        pageFetch hiccupNet ?l ?w1 = Inr (Some \<lparr>ok = True, body = Inr lastPage\<rparr>) \<and>
        ok \<lparr>ok = True, body = Inr lastPage\<rparr>"
    using h2 by (simp add: afterFirstPage_def)
  with consecutive_fetch_failures [OF st h1]
  have "scrape_loop hiccupNet ?l afterFirstPage =
          (case iteration (Inr (Some \<lparr>ok = True, body = Inr lastPage\<rparr>))
                  (afterFirstPage\<lparr>requested := requested afterFirstPage @
                         [pageUrl ?l (page afterFirstPage), pageUrl ?l (page afterFirstPage)],
                     consecutiveFailures := 0\<rparr>) of
             Break w' \<Rightarrow> Some w'
           | Next w' \<Rightarrow> scrape_loop hiccupNet ?l w')"
    by blast
  moreover have "scrapeAllPages hiccupNet ?l = scrape_loop hiccupNet ?l afterFirstPage"
    by (rule first_page_served) (simp add: hiccupNet_def)
  ultimately show "scrapeAllPages hiccupNet ?l =
     Some \<lparr>films = [alien, heat], page = 2, hasMore = False, consecutiveFailures = 0,
           requested = [''https://letterboxd.com/alice/list/favorites/'',
                        ''https://letterboxd.com/alice/list/favorites/page/2/'',
                        ''https://letterboxd.com/alice/list/favorites/page/2/'']\<rparr>"
    by (simp add: iteration_def scrapePage_def scrapeItem_def orEmpty_def lastPage_def Let_def
        afterFirstPage_def scrape_loop_exit alien_def heat_def pageUrl_second)
qed

text \<open>
  Page loads that fail at the read of the body. The pass resets the counter before
  \<^verbatim>\<open>await response.text()\<close>, so the \<^verbatim>\<open>catch\<close> block, which counts the failure, always leaves
  the counter at 1: after the first page such a pass never ends the loop.
\<close>

lemma unreadable_body_continues:
  assumes "hasMore w" "consecutiveFailures w < 2" "page w \<noteq> 1"
    and "pageFetch net listPath w = Inr (Some response)" "ok response"
    and "body response = Inl error"
  shows "scrape_loop net listPath w =
           scrape_loop net listPath
             (w\<lparr>requested := requested w @ [pageUrl listPath (page w)],
                consecutiveFailures := 1\<rparr>)"
  using assms by (simp add: scrape_loop_step iteration_def fetchFailed_def)

lemma unreadable_then_failed_stops:
  "scrapeAllPages unreadableThenDownNet ''/alice/list/favorites'' =
     Some \<lparr>films = [alien], page = 2, hasMore = True, consecutiveFailures = 2,
           requested = [''https://letterboxd.com/alice/list/favorites/'',
                        ''https://letterboxd.com/alice/list/favorites/page/2/'',
                        ''https://letterboxd.com/alice/list/favorites/page/2/'']\<rparr>"
proof -
  let ?l = "''/alice/list/favorites''"
  let ?u = "''https://letterboxd.com/alice/list/favorites/page/2/''"
  let ?w1 = "afterFirstPage\<lparr>requested := requested afterFirstPage @ [?u],
                             consecutiveFailures := 1\<rparr>"
  have s0: "scrapeAllPages unreadableThenDownNet ?l =
              scrape_loop unreadableThenDownNet ?l afterFirstPage"
    by (rule first_page_served) (simp add: unreadableThenDownNet_def)
  have "pageFetch unreadableThenDownNet ?l afterFirstPage =
          Inr (Some \<lparr>ok = True, body = Inl (ErrorInstance ''terminated'')\<rparr>)"
    by (simp add: pageFetch_def fetchWithRetry_closed unreadableThenDownNet_def truncated_def
        afterFirstPage_def)
  then have s1: "scrape_loop unreadableThenDownNet ?l afterFirstPage =
                   scrape_loop unreadableThenDownNet ?l ?w1"
    using unreadable_body_continues
      [where w = "afterFirstPage" and net = unreadableThenDownNet and listPath = ?l
         and response = "\<lparr>ok = True, body = Inl (ErrorInstance ''terminated'')\<rparr>"
         and error = "ErrorInstance ''terminated''"]
    by (simp add: afterFirstPage_def pageUrl_second)
  have "fetchFails (pageFetch unreadableThenDownNet ?l ?w1)"
    by (simp add: pageFetch_def fetchWithRetry_closed unreadableThenDownNet_def unavailable_def
        afterFirstPage_def fetchFails_def)
  then have s2: "scrape_loop unreadableThenDownNet ?l ?w1 =
      Some (?w1\<lparr>requested := requested ?w1 @ [pageUrl ?l (page ?w1)], consecutiveFailures := 2\<rparr>)"
    by (intro last_failure_stops) (simp_all add: afterFirstPage_def)
  from s0 s1 s2 show ?thesis by (simp add: afterFirstPage_def pageUrl_second)
qed

text \<open>
  C3. The claim fails on the code: two page loads in a row that fail do not always stop the
  walker. On \<open>unreadableTwiceNet\<close> the first page is scraped, the next two loads of page 2
  fail at the read of the body, and the walker goes on: it requests page 2 a third time,
  scrapes it and returns the films of both pages. (The \<^verbatim>\<open>catch\<close> block counts such a failure:
  one of them followed by one failed call of \<^verbatim>\<open>fetchWithRetry\<close> stops the walk,
  \<open>unreadable_then_failed_stops\<close>. For failed calls of \<^verbatim>\<open>fetchWithRetry\<close> alone the claim
  holds, \<open>consecutive_fetch_failures\<close>.)
\<close>

theorem two_unreadable_pages_do_not_stop:
  "scrapeAllPages unreadableTwiceNet ''/alice/list/favorites'' =
     Some \<lparr>films = [alien, heat], page = 2, hasMore = False, consecutiveFailures = 0,
           requested = [''https://letterboxd.com/alice/list/favorites/'',
                        ''https://letterboxd.com/alice/list/favorites/page/2/'',
                        ''https://letterboxd.com/alice/list/favorites/page/2/'',
                        ''https://letterboxd.com/alice/list/favorites/page/2/'']\<rparr>"
proof -
  let ?l = "''/alice/list/favorites''"
  let ?u = "''https://letterboxd.com/alice/list/favorites/page/2/''"
  let ?w1 = "afterFirstPage\<lparr>requested := requested afterFirstPage @ [?u],
                             consecutiveFailures := 1\<rparr>"
  let ?w2 = "afterFirstPage\<lparr>requested := requested afterFirstPage @ [?u, ?u],
                             consecutiveFailures := 1\<rparr>"
  let ?w3 = "\<lparr>films = [alien, heat], page = 2, hasMore = False, consecutiveFailures = 0,
              requested = [''https://letterboxd.com/alice/list/favorites/'', ?u, ?u, ?u]\<rparr>"
  have s0: "scrapeAllPages unreadableTwiceNet ?l = scrape_loop unreadableTwiceNet ?l afterFirstPage"
    by (rule first_page_served) (simp add: unreadableTwiceNet_def)
  have "pageFetch unreadableTwiceNet ?l afterFirstPage =
          Inr (Some \<lparr>ok = True, body = Inl (ErrorInstance ''terminated'')\<rparr>)"
    by (simp add: pageFetch_def fetchWithRetry_closed unreadableTwiceNet_def truncated_def
        afterFirstPage_def)
  then have s1: "scrape_loop unreadableTwiceNet ?l afterFirstPage =
                   scrape_loop unreadableTwiceNet ?l ?w1"
    using unreadable_body_continues
      [where w = "afterFirstPage" and net = unreadableTwiceNet and listPath = ?l
         and response = "\<lparr>ok = True, body = Inl (ErrorInstance ''terminated'')\<rparr>"
         and error = "ErrorInstance ''terminated''"]
    by (simp add: afterFirstPage_def pageUrl_second)
  have "pageFetch unreadableTwiceNet ?l ?w1 =
          Inr (Some \<lparr>ok = True, body = Inl (ErrorInstance ''terminated'')\<rparr>)"
    by (simp add: pageFetch_def fetchWithRetry_closed unreadableTwiceNet_def truncated_def
        afterFirstPage_def)
  then have s2: "scrape_loop unreadableTwiceNet ?l ?w1 = scrape_loop unreadableTwiceNet ?l ?w2"
    using unreadable_body_continues
      [where w = "?w1" and net = unreadableTwiceNet and listPath = ?l
         and response = "\<lparr>ok = True, body = Inl (ErrorInstance ''terminated'')\<rparr>"
         and error = "ErrorInstance ''terminated''"]
    by (simp add: afterFirstPage_def pageUrl_second)
  have "pageFetch unreadableTwiceNet ?l ?w2 = Inr (Some \<lparr>ok = True, body = Inr lastPage\<rparr>)"
    by (simp add: pageFetch_def fetchWithRetry_closed unreadableTwiceNet_def served_def
        afterFirstPage_def)
  then have s3: "scrape_loop unreadableTwiceNet ?l ?w2 = scrape_loop unreadableTwiceNet ?l ?w3"
    by (subst scrape_loop_step)
       (simp_all add: iteration_def scrapePage_def scrapeItem_def orEmpty_def lastPage_def
          Let_def afterFirstPage_def alien_def heat_def pageUrl_second)
  have s4: "scrape_loop unreadableTwiceNet ?l ?w3 = Some ?w3"
    by (rule scrape_loop_exit) simp
  from s0 s1 s2 s3 s4 show ?thesis by simp
qed

lemma fetchWithRetry_returns_attempt:
  "fst (fetchWithRetry fetch) = Inr (Some r) \<Longrightarrow> \<exists>i. fetch i = Inr r \<and> ok r"
  by (auto simp: fetchWithRetry_closed split: sum.splits if_splits)

lemma pageFetch_readable:
  assumes "readableBodies net" "pageFetch net listPath w = Inr (Some r)"
  shows "\<exists>doc. body r = Inr doc"
proof -
  from assms(2) obtain i where "net (length (requested w)) (pageUrl listPath (page w)) i = Inr r" "ok r"
    unfolding pageFetch_def using fetchWithRetry_returns_attempt by blast
  with assms(1) show ?thesis unfolding readableBodies_def by blast
qed

lemma fetchFailed_Next:
  assumes "fetchFailed w = Next w'"
  shows "w' = w\<lparr>consecutiveFailures := consecutiveFailures w + 1\<rparr> \<and> page w \<noteq> 1"
  using assms by (auto simp: fetchFailed_def Let_def split: if_splits)

lemma fetchFailed_Break:
  assumes "fetchFailed w = Break w'"
  shows "w' = w\<lparr>consecutiveFailures := consecutiveFailures w + 1\<rparr> \<and> page w = 1"
  using assms by (auto simp: fetchFailed_def Let_def split: if_splits)

lemma scrapePage_Next:
  assumes "scrapePage doc w = Next w'"
  shows "posterItems doc \<noteq> [] \<and>
         films w' = films w @ concat (map scrapeItem (posterItems doc)) \<and>
         consecutiveFailures w' = consecutiveFailures w \<and> requested w' = requested w \<and>
         (page w' = page w \<and> \<not> hasMore w' \<or>
          page w' = page w + 1 \<and> (hasMore w' \<longrightarrow> hasMore w \<and> page w' \<le> 50))"
  using assms by (auto simp: scrapePage_def Let_def split: if_splits)

lemma scrapePage_Break:
  assumes "scrapePage doc w = Break w'"
  shows "posterItems doc = [] \<and> w' = w\<lparr>hasMore := False\<rparr>"
  using assms by (auto simp: scrapePage_def Let_def split: if_splits)

lemma iteration_cases:
  obtains (failed) "fetchFails fetched" "iteration fetched w = fetchFailed w"
  | (unreadable) r e where "fetched = Inr (Some r)" "ok r" "body r = Inl e"
      "iteration fetched w = fetchFailed (w\<lparr>consecutiveFailures := 0\<rparr>)"
  | (scraped) r doc where "fetched = Inr (Some r)" "ok r" "body r = Inr doc"
      "iteration fetched w = scrapePage doc (w\<lparr>consecutiveFailures := 0\<rparr>)"
proof (cases fetched)
  case (Inl e)
  then show ?thesis using failed by (simp add: iteration_def fetchFails_def)
next
  case (Inr a)
  show ?thesis
  proof (cases a)
    case None
    with Inr show ?thesis using failed by (simp add: iteration_def fetchFails_def)
  next
    case (Some r)
    show ?thesis
    proof (cases "ok r")
      case False
      with Inr Some show ?thesis using failed by (simp add: iteration_def fetchFails_def)
    next
      case True
      show ?thesis
      proof (cases "body r")
        case (Inl e)
        with Inr Some True show ?thesis using unreadable by (simp add: iteration_def)
      next
        case (Inr doc)
        with \<open>fetched = Inr a\<close> Some True show ?thesis using scraped by (simp add: iteration_def)
      qed
    qed
  qed
qed

lemma iteration_requested:
  assumes "iteration fetched w = Break w' \<or> iteration fetched w = Next w'"
  shows "requested w' = requested w"
proof (cases fetched w rule: iteration_cases)
  case failed
  with assms have "fetchFailed w = Break w' \<or> fetchFailed w = Next w'" by simp
  then show ?thesis using fetchFailed_Break fetchFailed_Next by fastforce
next
  case (unreadable r e)
  let ?w1 = "w\<lparr>consecutiveFailures := 0\<rparr>"
  from unreadable assms have "fetchFailed ?w1 = Break w' \<or> fetchFailed ?w1 = Next w'" by simp
  then show ?thesis using fetchFailed_Break [of ?w1 w'] fetchFailed_Next [of ?w1 w'] by fastforce
next
  case (scraped r doc)
  let ?w1 = "w\<lparr>consecutiveFailures := 0\<rparr>"
  from scraped assms have "scrapePage doc ?w1 = Break w' \<or> scrapePage doc ?w1 = Next w'" by simp
  then show ?thesis using scrapePage_Break [of doc ?w1 w'] scrapePage_Next [of doc ?w1 w'] by fastforce
qed

lemma iteration_page:
  assumes "iteration fetched w = Next w'" "1 \<le> page w"
  shows "1 \<le> page w' \<and> page w \<le> page w' \<and>
         (hasMore w' \<longrightarrow> hasMore w \<and> (page w \<le> 50 \<longrightarrow> page w' \<le> 50))"
proof (cases fetched w rule: iteration_cases)
  case failed
  with assms have "fetchFailed w = Next w'" by simp
  from fetchFailed_Next [OF this] assms(2) show ?thesis by simp
next
  case (unreadable r e)
  with assms have "fetchFailed (w\<lparr>consecutiveFailures := 0\<rparr>) = Next w'" by simp
  from fetchFailed_Next [OF this] assms(2) show ?thesis by simp
next
  case (scraped r doc)
  with assms have "scrapePage doc (w\<lparr>consecutiveFailures := 0\<rparr>) = Next w'" by simp
  from scrapePage_Next [OF this] assms(2) show ?thesis by auto
qed

lemma iteration_budget:
  assumes "iteration fetched w = Next w'" "hasMore w" "consecutiveFailures w < 2"
    and "\<And>r. fetched = Inr (Some r) \<Longrightarrow> ok r \<Longrightarrow> \<exists>doc. body r = Inr doc"
  shows "loopBudget w' < loopBudget w"
proof (cases fetched w rule: iteration_cases)
  case failed
  with assms(1) have "fetchFailed w = Next w'" by simp
  from fetchFailed_Next [OF this] assms(2,3) show ?thesis by (simp add: loopBudget_def)
next
  case (unreadable r e)
  with assms(4) show ?thesis by fastforce
next
  case (scraped r doc)
  with assms(1) have "scrapePage doc (w\<lparr>consecutiveFailures := 0\<rparr>) = Next w'" by simp
  from scrapePage_Next [OF this] assms(2,3) show ?thesis
    by (auto simp: loopBudget_def)
qed

lemma scrape_loop_terminates:
  assumes "readableBodies net"
  shows "\<exists>w'. scrape_loop net listPath w = Some w' \<and>
               length (requested w') \<le> length (requested w) + loopBudget w"
proof (induction "loopBudget w" arbitrary: w rule: less_induct)
  case less
  show ?case
  proof (cases "hasMore w \<and> consecutiveFailures w < 2")
    case False
    then have "scrape_loop net listPath w = Some w" by (rule scrape_loop_exit)
    then show ?thesis by simp
  next
    case True
    let ?w0 = "w\<lparr>requested := requested w @ [pageUrl listPath (page w)]\<rparr>"
    let ?f = "pageFetch net listPath w"
    have budget: "1 \<le> loopBudget w" using True by (simp add: loopBudget_def)
    show ?thesis
    proof (cases "iteration ?f ?w0")
      case (Break w')
      then have "scrape_loop net listPath w = Some w'"
        using True by (simp add: scrape_loop_step)
      moreover have "requested w' = requested ?w0" using Break iteration_requested by blast
      ultimately show ?thesis using budget by simp
    next
      case (Next w')
      have "loopBudget w' < loopBudget ?w0"
      proof (rule iteration_budget [OF Next])
        show "hasMore ?w0" "consecutiveFailures ?w0 < 2" using True by simp_all
        fix r assume "?f = Inr (Some r)" "ok r"
        then show "\<exists>doc. body r = Inr doc" using pageFetch_readable [OF assms] by blast
      qed
      moreover have "loopBudget ?w0 = loopBudget w" by (simp add: loopBudget_def)
      ultimately have lt: "loopBudget w' < loopBudget w" by simp
      from less [OF lt] obtain w'' where w'': "scrape_loop net listPath w' = Some w''"
        "length (requested w'') \<le> length (requested w') + loopBudget w'" by blast
      have "requested w' = requested ?w0" using Next iteration_requested by blast
      then have "length (requested w') = length (requested w) + 1" by simp
      moreover have "scrape_loop net listPath w = Some w''"
        using True Next w''(1) by (simp add: scrape_loop_step)
      ultimately show ?thesis using w''(2) lt by auto
    qed
  qed
qed

lemma scrape_loop_pages:
  assumes "scrape_loop net listPath w = Some w'"
  shows "1 \<le> page w \<and> (hasMore w \<longrightarrow> page w \<le> 50) \<longrightarrow>
           set (requested w') \<subseteq> set (requested w) \<union> pageUrl listPath ` {1..50}"
proof (rule scrape_loop.raw_induct
    [where P = "\<lambda>n l v y. 1 \<le> page v \<and> (hasMore v \<longrightarrow> page v \<le> 50) \<longrightarrow>
                   set (requested y) \<subseteq> set (requested v) \<union> pageUrl l ` {1..50}", OF _ assms])
  fix loop :: "network \<Rightarrow> string \<Rightarrow> walk \<Rightarrow> walk option" and n l v y
  assume IH: "\<And>n l v y. loop n l v = Some y \<Longrightarrow>
      1 \<le> page v \<and> (hasMore v \<longrightarrow> page v \<le> 50) \<longrightarrow>
        set (requested y) \<subseteq> set (requested v) \<union> pageUrl l ` {1..50}"
    and step: "(if hasMore v \<and> consecutiveFailures v < 2
          then case iteration (pageFetch n l v) (v\<lparr>requested := requested v @ [pageUrl l (page v)]\<rparr>) of
                 Break w' \<Rightarrow> Some w' | Next w' \<Rightarrow> loop n l w'
          else Some v) = Some y"
  show "1 \<le> page v \<and> (hasMore v \<longrightarrow> page v \<le> 50) \<longrightarrow>
          set (requested y) \<subseteq> set (requested v) \<union> pageUrl l ` {1..50}"
  proof
    assume inv: "1 \<le> page v \<and> (hasMore v \<longrightarrow> page v \<le> 50)"
    let ?v0 = "v\<lparr>requested := requested v @ [pageUrl l (page v)]\<rparr>"
    show "set (requested y) \<subseteq> set (requested v) \<union> pageUrl l ` {1..50}"
    proof (cases "hasMore v \<and> consecutiveFailures v < 2")
      case False
      with step show ?thesis by auto
    next
      case True
      with inv have pg: "page v \<in> {1..50}" by simp
      show ?thesis
      proof (cases "iteration (pageFetch n l v) ?v0")
        case (Break w')
        with step True have "y = w'" by simp
        moreover have "requested w' = requested ?v0" using Break iteration_requested by blast
        ultimately show ?thesis using pg by auto
      next
        case (Next w')
        with step True have "loop n l w' = Some y" by simp
        moreover have "1 \<le> page w' \<and> (hasMore w' \<longrightarrow> page w' \<le> 50)"
          using iteration_page [OF Next] inv True by simp
        ultimately have "set (requested y) \<subseteq> set (requested w') \<union> pageUrl l ` {1..50}"
          using IH by blast
        moreover have "requested w' = requested ?v0" using Next iteration_requested by blast
        ultimately show ?thesis using pg by auto
      qed
    qed
  qed
qed

lemma scrapeAllPages_bounded:
  assumes "readableBodies net"
  shows "\<exists>w'. scrapeAllPages net listPath = Some w' \<and>
               set (requested w') \<subseteq> pageUrl listPath ` {1..50} \<and>
               length (requested w') \<le> 103"
proof -
  let ?w = "\<lparr>films = [], page = 1, hasMore = True, consecutiveFailures = 0, requested = []\<rparr>"
  from scrape_loop_terminates [OF assms, of listPath ?w]
  obtain w' where w': "scrape_loop net listPath ?w = Some w'"
    "length (requested w') \<le> length (requested ?w) + loopBudget ?w" by blast
  from scrape_loop_pages [OF w'(1)] have "set (requested w') \<subseteq> pageUrl listPath ` {1..50}" by simp
  moreover have "length (requested w') \<le> 103" using w'(2) by (simp add: loopBudget_def)
  ultimately show ?thesis using w'(1) by (simp add: scrapeAllPages_def)
qed

lemma first_page_fails:
  assumes "fetchFails (fst (fetchWithRetry (net 0 (pageUrl listPath 1))))"
  shows "scrapeAllPages net listPath =
           Some \<lparr>films = [], page = 1, hasMore = True, consecutiveFailures = 1,
                 requested = [pageUrl listPath 1]\<rparr>"
  using assms
  by (simp add: scrapeAllPages_def scrape_loop_step pageFetch_def iteration_fetchFails fetchFailed_def)

text \<open>
  On the network \<open>stuckNet\<close> every pass after the first one gets an \<^verbatim>\<open>ok\<close> response, resets
  the counter, fails to read the body and leaves the counter at 1; the page counter stays
  at 2 and \<^verbatim>\<open>hasMore\<close> stays set.
\<close>

lemma stuck_step:
  assumes "hasMore w" "consecutiveFailures w < 2" "page w \<noteq> 1" "requested w \<noteq> []"
  shows "iteration (pageFetch stuckNet listPath w)
           (w\<lparr>requested := requested w @ [pageUrl listPath (page w)]\<rparr>) =
         Next (w\<lparr>requested := requested w @ [pageUrl listPath (page w)], consecutiveFailures := 1\<rparr>)"
proof -
  have "pageFetch stuckNet listPath w =
          Inr (Some \<lparr>ok = True, body = Inl (ErrorInstance ''terminated'')\<rparr>)"
    unfolding pageFetch_def using assms(4)
    by (intro fetchWithRetry_first_attempt_ok) (simp_all add: stuckNet_def truncated_def)
  then show ?thesis using assms(3) by (simp add: iteration_def fetchFailed_def)
qed

lemma stuck_never_returns:
  assumes "scrape_loop net listPath w = Some w'"
  shows "\<not> (net = stuckNet \<and> hasMore w \<and> consecutiveFailures w < 2 \<and> page w \<noteq> 1 \<and> requested w \<noteq> [])"
proof (rule scrape_loop.raw_induct
    [where P = "\<lambda>n l v y. \<not> (n = stuckNet \<and> hasMore v \<and> consecutiveFailures v < 2 \<and>
                                page v \<noteq> 1 \<and> requested v \<noteq> [])", OF _ assms])
  fix loop :: "network \<Rightarrow> string \<Rightarrow> walk \<Rightarrow> walk option" and n l v y
  assume IH: "\<And>n l v y. loop n l v = Some y \<Longrightarrow>
      \<not> (n = stuckNet \<and> hasMore v \<and> consecutiveFailures v < 2 \<and> page v \<noteq> 1 \<and> requested v \<noteq> [])"
    and step: "(if hasMore v \<and> consecutiveFailures v < 2
          then case iteration (pageFetch n l v) (v\<lparr>requested := requested v @ [pageUrl l (page v)]\<rparr>) of
                 Break w' \<Rightarrow> Some w' | Next w' \<Rightarrow> loop n l w'
          else Some v) = Some y"
  show "\<not> (n = stuckNet \<and> hasMore v \<and> consecutiveFailures v < 2 \<and> page v \<noteq> 1 \<and> requested v \<noteq> [])"
  proof
    assume s: "n = stuckNet \<and> hasMore v \<and> consecutiveFailures v < 2 \<and> page v \<noteq> 1 \<and> requested v \<noteq> []"
    let ?v1 = "v\<lparr>requested := requested v @ [pageUrl l (page v)], consecutiveFailures := 1\<rparr>"
    from s have "iteration (pageFetch n l v)
           (v\<lparr>requested := requested v @ [pageUrl l (page v)]\<rparr>) = Next ?v1"
      using stuck_step by simp
    with step s have "loop n l ?v1 = Some y" by simp
    from IH [OF this] s show False by simp
  qed
qed

text \<open>
  C6. The walker does not return for every behaviour of the network: on \<open>stuckNet\<close>, where
  the first page is served and every later response is \<^verbatim>\<open>ok\<close> with a body that cannot be
  read, the loop goes on for ever. (On every network with readable bodies it returns, after
  requests for pages 1 to 50 only: \<open>scrapeAllPages_bounded\<close>; and when the first call fails
  it returns at once with no film: \<open>first_page_fails\<close>.)
\<close>

theorem scrapeAllPages_never_returns:
  "scrapeAllPages stuckNet ''/alice/list/favorites'' = None"
proof -
  let ?l = "''/alice/list/favorites''"
  have "scrapeAllPages stuckNet ?l = scrape_loop stuckNet ?l afterFirstPage"
    by (rule first_page_served) (simp add: stuckNet_def)
  moreover have "scrape_loop stuckNet ?l afterFirstPage = None"
  proof (cases "scrape_loop stuckNet ?l afterFirstPage")
    case None
    then show ?thesis .
  next
    case (Some w')
    from stuck_never_returns [OF this] show ?thesis by (simp add: afterFirstPage_def)
  qed
  ultimately show ?thesis by simp
qed

section \<open>Properties of the orchestrator\<close>

lemma extractListPath_Nil: "extractListPath [] = None"
  by (simp add: extractListPath_def match_here_def)

lemma extractListPath_favorites: "extractListPath favorites = Some ''/alice/list/favorites''"
  by code_simp

lemma dedupe_filter_subset: "set (dedupe_filter seen fs) \<subseteq> set fs"
  by (induction fs arbitrary: seen) auto

lemma dedupeFilms_subset: "set (dedupeFilms fs) \<subseteq> set fs"
  by (simp add: dedupeFilms_def dedupe_filter_subset)

lemma dedupeFilms_Nil_iff: "dedupeFilms fs = [] \<longleftrightarrow> fs = []"
  by (cases fs) (simp_all add: dedupeFilms_def)

lemma dedupeFilms_distinct: "distinct (map slug (dedupeFilms fs))"
  unfolding dedupeFilms_def by (rule dedupe_filter_distinct)

lemma handler_invalid:
  assumes "url = None \<or> url = Some (Str []) \<or> (\<exists>u. url = Some (Str u) \<and> extractListPath u = None)"
  shows "\<exists>message. handler rss scrape url =
           (Some \<lparr>status = 400, json = ErrorBody message\<rparr>, [])"
  using assms by (auto simp: handler_def tryBlock_def)

lemma handler_array:
  "handler rss scrape (Some (Arr xs)) =
     (Some \<lparr>status = 500, json = ErrorBody ''url.match is not a function''\<rparr>, [])"
  by (simp add: handler_def tryBlock_def catchReply_def matchTypeError_def)

lemma handler_fulfilled:
  assumes "url = Some (Str u)" "extractListPath u = Some listPath"
    and "rss listPath = Fulfilled rssFilms" "scrape listPath = Fulfilled scrapedFilms"
  shows "handler rss scrape url =
     (Some (if dedupeFilms (selectFilms rssFilms scrapedFilms) = []
            then \<lparr>status = 404, json = ErrorBody
                ''Could not fetch list. The list may be private or temporarily unavailable.''\<rparr>
            else \<lparr>status = 200,
                   json = FilmsBody (dedupeFilms (selectFilms rssFilms scrapedFilms))\<rparr>),
      [TryRssFeed listPath, ScrapeAllPages listPath])"
proof -
  have "u \<noteq> []" using assms(2) extractListPath_Nil by auto
  then show ?thesis
    using assms by (simp add: handler_def tryBlock_def promiseAll_def Let_def)
qed

lemma handler_pending:
  assumes "url = Some (Str u)" "extractListPath u = Some listPath"
    and "rss listPath = Pending \<or> scrape listPath = Pending"
  shows "handler rss scrape url = (None, [TryRssFeed listPath, ScrapeAllPages listPath])"
proof -
  have "u \<noteq> []" using assms(2) extractListPath_Nil by auto
  moreover have "promiseAll (rss listPath) (scrape listPath) = Pending"
    using assms(3) by (auto simp: promiseAll_def split: promise.splits)
  ultimately show ?thesis
    using assms(1,2) by (simp add: handler_def tryBlock_def)
qed

text \<open>
  The replies to a parameter that is absent or a string, when both stages settle. Absent,
  empty or without an occurrence of the list pattern: status 400, and no stage is called,
  so that no network request is issued. With a list path: the deduplicated collection is
  empty exactly when neither stage gave a film, and the reply is then 404; otherwise it is
  200 with the selected films deduplicated, which have pairwise distinct slugs.
\<close>

lemma handler_status:
  "((url = None \<or> url = Some (Str []) \<or> (\<exists>u. url = Some (Str u) \<and> extractListPath u = None)) \<longrightarrow>
      (\<exists>message. handler rss scrape url =
         (Some \<lparr>status = 400, json = ErrorBody message\<rparr>, []))) \<and>
   (\<forall>u listPath rssFilms scrapedFilms.
      url = Some (Str u) \<and> extractListPath u = Some listPath \<and>
      rss listPath = Fulfilled rssFilms \<and> scrape listPath = Fulfilled scrapedFilms \<longrightarrow>
        (dedupeFilms (selectFilms rssFilms scrapedFilms) = [] \<longleftrightarrow>
           \<not> nonEmpty scrapedFilms \<and> \<not> nonEmpty rssFilms) \<and>
        distinct (map slug (dedupeFilms (selectFilms rssFilms scrapedFilms))) \<and>
        (dedupeFilms (selectFilms rssFilms scrapedFilms) = [] \<longrightarrow>
           (\<exists>message. fst (handler rss scrape url) =
              Some \<lparr>status = 404, json = ErrorBody message\<rparr>)) \<and>
        (dedupeFilms (selectFilms rssFilms scrapedFilms) \<noteq> [] \<longrightarrow>
           fst (handler rss scrape url) =
             Some \<lparr>status = 200,
                   json = FilmsBody (dedupeFilms (selectFilms rssFilms scrapedFilms))\<rparr>))"
proof -
  have invalid: "\<exists>message. handler rss scrape url =
         (Some \<lparr>status = 400, json = ErrorBody message\<rparr>, [])"
    if "url = None \<or> url = Some (Str []) \<or> (\<exists>u. url = Some (Str u) \<and> extractListPath u = None)"
    using that by (rule handler_invalid)
  have valid:
    "(dedupeFilms (selectFilms rssFilms scrapedFilms) = [] \<longleftrightarrow>
           \<not> nonEmpty scrapedFilms \<and> \<not> nonEmpty rssFilms) \<and>
        distinct (map slug (dedupeFilms (selectFilms rssFilms scrapedFilms))) \<and>
        (dedupeFilms (selectFilms rssFilms scrapedFilms) = [] \<longrightarrow>
           (\<exists>message. fst (handler rss scrape url) =
              Some \<lparr>status = 404, json = ErrorBody message\<rparr>)) \<and>
        (dedupeFilms (selectFilms rssFilms scrapedFilms) \<noteq> [] \<longrightarrow>
           fst (handler rss scrape url) =
             Some \<lparr>status = 200,
                   json = FilmsBody (dedupeFilms (selectFilms rssFilms scrapedFilms))\<rparr>)"
    if a: "url = Some (Str u) \<and> extractListPath u = Some listPath \<and>
      rss listPath = Fulfilled rssFilms \<and> scrape listPath = Fulfilled scrapedFilms"
    for u listPath rssFilms scrapedFilms
  proof -
    from a have a1: "url = Some (Str u)" and a2: "extractListPath u = Some listPath"
      and a3: "rss listPath = Fulfilled rssFilms" and a4: "scrape listPath = Fulfilled scrapedFilms"
      by simp_all
    note h = handler_fulfilled [where rss = rss and scrape = scrape, OF a1 a2 a3 a4]
    have e: "dedupeFilms (selectFilms rssFilms scrapedFilms) = [] \<longleftrightarrow>
           \<not> nonEmpty scrapedFilms \<and> \<not> nonEmpty rssFilms"
      by (cases scrapedFilms; cases rssFilms)
         (simp_all add: dedupeFilms_Nil_iff selectFilms_def nonEmpty_def)
    have d: "distinct (map slug (dedupeFilms (selectFilms rssFilms scrapedFilms)))"
      by (rule dedupeFilms_distinct)
    show ?thesis
    proof (cases "dedupeFilms (selectFilms rssFilms scrapedFilms) = []")
      case True
      with h e d show ?thesis by simp
    next
      case False
      with h e d show ?thesis by simp
    qed
  qed
  from invalid valid show ?thesis by blast
qed

lemma handler_status_scenarios:
  "handler feedStage walkerStage (Some (Str ''not-a-url'')) =
     (Some \<lparr>status = 400, json = ErrorBody ''Invalid Letterboxd list URL''\<rparr>, []) \<and>
   handler feedStage walkerStage None =
     (Some \<lparr>status = 400, json = ErrorBody ''URL is required''\<rparr>, []) \<and>
   fst (handler feedNothing walkerEmpty (Some (Str favorites))) =
     Some \<lparr>status = 404, json = ErrorBody
        ''Could not fetch list. The list may be private or temporarily unavailable.''\<rparr> \<and>
   fst (handler feedStage walkerStage (Some (Str favorites))) =
     Some \<lparr>status = 200, json = FilmsBody [alien, heat]\<rparr>"
proof (intro conjI)
  have "extractListPath ''not-a-url'' = None" by code_simp
  then show "handler feedStage walkerStage (Some (Str ''not-a-url'')) =
     (Some \<lparr>status = 400, json = ErrorBody ''Invalid Letterboxd list URL''\<rparr>, [])"
    by (simp add: handler_def tryBlock_def)
  show "handler feedStage walkerStage None =
     (Some \<lparr>status = 400, json = ErrorBody ''URL is required''\<rparr>, [])"
    by (simp add: handler_def)
  have "feedNothing ''/alice/list/favorites'' = Fulfilled None"
    and "walkerEmpty ''/alice/list/favorites'' = Fulfilled (Some [])"
    by (simp_all add: feedNothing_def walkerEmpty_def)
  from handler_fulfilled
    [where url = "Some (Str favorites)" and rss = feedNothing and scrape = walkerEmpty,
     OF refl extractListPath_favorites this]
  show "fst (handler feedNothing walkerEmpty (Some (Str favorites))) =
     Some \<lparr>status = 404, json = ErrorBody
        ''Could not fetch list. The list may be private or temporarily unavailable.''\<rparr>"
    by (simp add: dedupeFilms_def selectFilms_def nonEmpty_def)
  have "feedStage ''/alice/list/favorites'' = Fulfilled (Some [feedAlien, feedRan])"
    and "walkerStage ''/alice/list/favorites'' = Fulfilled (Some [alien, heat, alien])"
    by (simp_all add: feedStage_def walkerStage_def)
  from handler_fulfilled
    [where url = "Some (Str favorites)" and rss = feedStage and scrape = walkerStage,
     OF refl extractListPath_favorites this]
  show "fst (handler feedStage walkerStage (Some (Str favorites))) =
     Some \<lparr>status = 200, json = FilmsBody [alien, heat]\<rparr>"
    by (simp add: dedupeFilms_def selectFilms_def nonEmpty_def alien_def heat_def)
qed

text \<open>
  C7. The claim fails on the code at a repeated parameter: for \<^verbatim>\<open>?url=a&url=b\<close> the
  parameter is the array of the two strings, which does not have the shape of a list URL,
  and the reply is the status 500 with the message of a \<^verbatim>\<open>TypeError\<close>, not the status 400.
  It fails as well when the walker never returns: on the network \<open>stuckNet\<close> the handler
  calls both stages for a well-formed URL and never replies. (For a parameter that is
  absent or a string and stages that settle, the replies are those of the claim,
  \<open>handler_status\<close>.)
\<close>

theorem handler_repeated_parameter:
  "handler feedStage walkerStage (Some (Arr [''a'', ''b''])) =
     (Some \<lparr>status = 500, json = ErrorBody ''url.match is not a function''\<rparr>, []) \<and>
   handler feedStage (scrapeStage stuckNet) (Some (Str favorites)) =
     (None, [TryRssFeed ''/alice/list/favorites'', ScrapeAllPages ''/alice/list/favorites''])"
proof
  show "handler feedStage walkerStage (Some (Arr [''a'', ''b''])) =
     (Some \<lparr>status = 500, json = ErrorBody ''url.match is not a function''\<rparr>, [])"
    by (rule handler_array)
  let ?l = "''/alice/list/favorites''"
  have "scrapeAllPages stuckNet ?l = scrape_loop stuckNet ?l afterFirstPage"
    by (rule first_page_served) (simp add: stuckNet_def)
  moreover have "scrape_loop stuckNet ?l afterFirstPage = None"
  proof (cases "scrape_loop stuckNet ?l afterFirstPage")
    case None
    then show ?thesis .
  next
    case (Some w')
    from stuck_never_returns [OF this] show ?thesis by (simp add: afterFirstPage_def)
  qed
  ultimately have "scrapeStage stuckNet ?l = Pending" by (simp add: scrapeStage_def)
  then have "feedStage ?l = Pending \<or> scrapeStage stuckNet ?l = Pending" by simp
  from handler_pending
    [where url = "Some (Str favorites)" and rss = feedStage and scrape = "scrapeStage stuckNet",
     OF refl extractListPath_favorites this]
  show "handler feedStage (scrapeStage stuckNet) (Some (Str favorites)) =
     (None, [TryRssFeed ?l, ScrapeAllPages ?l])" .
qed

text \<open>
  C2. For a URL that gives a list path and every pair of results the two stages settle
  to: when the result of the walker is not empty, the reply is 200 with the deduplicated
  result of the walker, and every film of the reply is a film of the walker result, so
  that a film of the feed appears only when the walker found it too; when the result of
  the walker is empty (or \<^verbatim>\<open>null\<close>) and the feed gave films, the reply is 200 with the
  deduplicated films of the feed, and it is 404 when the feed gave an empty array.
\<close>

theorem handler_either_source:
  assumes "url = Some (Str u)" "extractListPath u = Some listPath"
    and "rss listPath = Fulfilled rssFilms" "scrape listPath = Fulfilled scrapedFilms"
  shows
   "(\<forall>fs. scrapedFilms = Some fs \<and> fs \<noteq> [] \<longrightarrow>
       fst (handler rss scrape url) =
         Some \<lparr>status = 200, json = FilmsBody (dedupeFilms fs)\<rparr> \<and>
       (\<forall>f. f \<in> set (dedupeFilms fs) \<longrightarrow> f \<in> set fs)) \<and>
    (\<forall>fs. (scrapedFilms = None \<or> scrapedFilms = Some []) \<and> rssFilms = Some fs \<longrightarrow>
       (fs \<noteq> [] \<longrightarrow>
          fst (handler rss scrape url) =
            Some \<lparr>status = 200, json = FilmsBody (dedupeFilms fs)\<rparr>) \<and>
       (fs = [] \<longrightarrow>
          fst (handler rss scrape url) =
            Some \<lparr>status = 404, json = ErrorBody
               ''Could not fetch list. The list may be private or temporarily unavailable.''\<rparr>))"
proof (intro conjI allI impI)
  note h = handler_fulfilled [where rss = rss and scrape = scrape, OF assms]
  fix fs
  {
    assume s: "scrapedFilms = Some fs \<and> fs \<noteq> []"
    then have "selectFilms rssFilms scrapedFilms = fs"
      by (simp add: selectFilms_def nonEmpty_def)
    then show "fst (handler rss scrape url) =
        Some \<lparr>status = 200, json = FilmsBody (dedupeFilms fs)\<rparr>"
      using h s by (simp add: dedupeFilms_Nil_iff)
  }
  {
    fix f assume "f \<in> set (dedupeFilms fs)"
    then show "f \<in> set fs" using dedupeFilms_subset by blast
  }
  {
    assume s: "(scrapedFilms = None \<or> scrapedFilms = Some []) \<and> rssFilms = Some fs" and n: "fs \<noteq> []"
    then have "selectFilms rssFilms scrapedFilms = fs"
      by (auto simp: selectFilms_def nonEmpty_def)
    then show "fst (handler rss scrape url) =
        Some \<lparr>status = 200, json = FilmsBody (dedupeFilms fs)\<rparr>"
      using h n by (simp add: dedupeFilms_Nil_iff)
  }
  {
    assume s: "(scrapedFilms = None \<or> scrapedFilms = Some []) \<and> rssFilms = Some fs" and n: "fs = []"
    then have "selectFilms rssFilms scrapedFilms = []"
      by (auto simp: selectFilms_def nonEmpty_def)
    then show "fst (handler rss scrape url) =
            Some \<lparr>status = 404, json = ErrorBody
               ''Could not fetch list. The list may be private or temporarily unavailable.''\<rparr>"
      using h by (simp add: dedupeFilms_def)
  }
qed

theorem handler_either_source_witness:
  "fst (handler feedStage walkerStage (Some (Str favorites))) =
     Some \<lparr>status = 200, json = FilmsBody [alien, heat]\<rparr> \<and>
   feedRan \<notin> set [alien, heat] \<and>
   fst (handler feedStage walkerEmpty (Some (Str favorites))) =
     Some \<lparr>status = 200, json = FilmsBody [feedAlien, feedRan]\<rparr>"
proof (intro conjI)
  have "feedStage ''/alice/list/favorites'' = Fulfilled (Some [feedAlien, feedRan])"
    and "walkerStage ''/alice/list/favorites'' = Fulfilled (Some [alien, heat, alien])"
    by (simp_all add: feedStage_def walkerStage_def)
  from handler_either_source
    [where url = "Some (Str favorites)" and rss = feedStage and scrape = walkerStage,
     OF refl extractListPath_favorites this]
  have "fst (handler feedStage walkerStage (Some (Str favorites))) =
      Some \<lparr>status = 200, json = FilmsBody (dedupeFilms [alien, heat, alien])\<rparr>"
    by simp
  moreover have "dedupeFilms [alien, heat, alien] = [alien, heat]"
    by (simp add: dedupeFilms_def alien_def heat_def)
  ultimately show "fst (handler feedStage walkerStage (Some (Str favorites))) =
     Some \<lparr>status = 200, json = FilmsBody [alien, heat]\<rparr>"
    by simp
next
  show "feedRan \<notin> set [alien, heat]" by (simp add: feedRan_def alien_def heat_def)
next
  have "feedStage ''/alice/list/favorites'' = Fulfilled (Some [feedAlien, feedRan])"
    and "walkerEmpty ''/alice/list/favorites'' = Fulfilled (Some [])"
    by (simp_all add: feedStage_def walkerEmpty_def)
  from handler_either_source
    [where url = "Some (Str favorites)" and rss = feedStage and scrape = walkerEmpty,
     OF refl extractListPath_favorites this]
  have "fst (handler feedStage walkerEmpty (Some (Str favorites))) =
      Some \<lparr>status = 200, json = FilmsBody (dedupeFilms [feedAlien, feedRan])\<rparr>"
    by simp
  moreover have "dedupeFilms [feedAlien, feedRan] = [feedAlien, feedRan]"
    by (simp add: dedupeFilms_def feedAlien_def feedRan_def)
  ultimately show "fst (handler feedStage walkerEmpty (Some (Str favorites))) =
     Some \<lparr>status = 200, json = FilmsBody [feedAlien, feedRan]\<rparr>"
    by simp
qed




end
